theory Spec2Isabelle
  imports Main "HOL-Library.Word"
begin

unbundle bit_operations_syntax

section \<open>Strict tree-rule generator (rulegen.cpp): a shallow embedding\<close>

text \<open>
  The definitions below follow \<^verbatim>\<open>src/rulegen.cpp\<close> function by function and keep its
  names. State that the C++ keeps in globals and in heap objects is passed explicitly; every
  \<^verbatim>\<open>throw\<close> is the left injection of a sum.
\<close>

subsection \<open>Exceptions\<close>

text \<open>
  The exception classes of the source form a hierarchy:
  \<^verbatim>\<open>rulegen_failure : hr_exception\<close>, \<^verbatim>\<open>rulegen_retry : rulegen_failure\<close>,
  \<^verbatim>\<open>rulegen_surrender : rulegen_failure\<close>, \<^verbatim>\<open>hr_solid_error : rulegen_retry\<close> and
  \<^verbatim>\<open>verify_advance_failed : hr_exception\<close>. A handler \<^verbatim>\<open>catch(rulegen_retry&)\<close>
  catches exactly the values for which \<open>is_rulegen_retry\<close> holds.
\<close>

datatype exn =
    hr_exception string
  | rulegen_failure string
  | rulegen_retry string
  | rulegen_surrender string
  | hr_solid_error
  | verify_advance_failed

fun is_rulegen_retry :: "exn \<Rightarrow> bool" where
  "is_rulegen_retry (rulegen_retry m) = True"
| "is_rulegen_retry hr_solid_error = True"
| "is_rulegen_retry e = False"

fun is_rulegen_surrender :: "exn \<Rightarrow> bool" where
  "is_rulegen_surrender (rulegen_surrender m) = True"
| "is_rulegen_surrender e = False"

subsection \<open>The driver: \<^verbatim>\<open>check_timeout\<close>, \<^verbatim>\<open>rules_iteration\<close>, \<^verbatim>\<open>generate_rules\<close>\<close>

text \<open>
  \<^verbatim>\<open>check_timeout\<close> compares the clock \<^verbatim>\<open>SDL_GetTicks()\<close> (an unsigned 32-bit
  millisecond counter) with \<^verbatim>\<open>start_time + 1000 * rulegen_timeout\<close>, computed in
  unsigned arithmetic. The clock is a reading of the world \<open>'w\<close>, given as \<open>ticks\<close>.
\<close>

definition check_timeout ::
  "('w \<Rightarrow> 32 word) \<Rightarrow> 32 word \<Rightarrow> int \<Rightarrow> 'w \<Rightarrow> exn + unit" where
  "check_timeout ticks start_time rulegen_timeout w =
     (if ticks w > start_time + word_of_int (1000 * rulegen_timeout)
      then Inl (rulegen_surrender ''timeout'')
      else Inr ())"

text \<open>
  \<^verbatim>\<open>rules_iteration\<close> starts with \<^verbatim>\<open>try_count++\<close>; nothing else in the file writes
  \<^verbatim>\<open>try_count\<close> but \<^verbatim>\<open>generate_rules\<close>, which resets it before the loop. The remainder
  of the iteration (cleaning, code assignment, rule building, branch verification,
  minimisation) is the parameter \<open>body\<close>: it reads the incremented counter and the world
  and leaves a new world, ending normally or with an exception.
\<close>

definition rules_iteration ::
  "(int \<Rightarrow> 'w \<Rightarrow> (exn + unit) \<times> 'w) \<Rightarrow> int \<Rightarrow> 'w \<Rightarrow> (exn + unit) \<times> int \<times> 'w" where
  "rules_iteration body try_count w =
     (let try_count' = try_count + 1 in
      case body try_count' w of (r, w') \<Rightarrow> (r, try_count', w'))"

text \<open>
  The loop at the end of \<^verbatim>\<open>generate_rules\<close>:
  \<^verbatim>\<open>while(true) { check_timeout(); try { rules_iteration(); break; }
  catch(rulegen_retry& e) { if(try_count >= max_retries) throw; } }\<close>.
  The result is how the loop is left (normally, or with the exception that escapes it),
  the final \<^verbatim>\<open>try_count\<close> and the final world.
\<close>

function generate_rules_loop ::
  "(int \<Rightarrow> 'w \<Rightarrow> (exn + unit) \<times> 'w) \<Rightarrow> ('w \<Rightarrow> 32 word) \<Rightarrow> 32 word \<Rightarrow> int \<Rightarrow> int
     \<Rightarrow> int \<Rightarrow> 'w \<Rightarrow> (exn + unit) \<times> int \<times> 'w" where
  "generate_rules_loop body ticks start_time rulegen_timeout max_retries try_count w =
     (case check_timeout ticks start_time rulegen_timeout w of
        Inl e \<Rightarrow> (Inl e, try_count, w)
      | Inr u \<Rightarrow>
         (case body (try_count + 1) w of
            (Inr u', w') \<Rightarrow> (Inr (), try_count + 1, w')
          | (Inl e, w') \<Rightarrow>
              if is_rulegen_retry e then
                (if try_count + 1 \<ge> max_retries then (Inl e, try_count + 1, w')
                 else generate_rules_loop body ticks start_time rulegen_timeout max_retries
                        (try_count + 1) w')
              else (Inl e, try_count + 1, w')))"
  by pat_completeness auto
termination
  by (relation "measure (\<lambda>(body, ticks, start_time, rulegen_timeout, max_retries, try_count, w).
        nat (max_retries - try_count))") auto

declare generate_rules_loop.simps [simp del]

text \<open>
  \<^verbatim>\<open>generate_rules\<close> itself, before the loop:
  \<^verbatim>\<open>start_time = SDL_GetTicks(); delete_tmap();
  if(!arb::in()) try { arb::convert::convert(); if(flags & w_numerical) arb::convert::activate(); }
  catch(hr_exception& e) { throw rulegen_surrender("conversion failure"); }
  clear_all(); ... try_count = 0; important = t_origin;\<close>
  The parameters are \<open>delete_tmap\<close>, \<open>arb_in\<close> (the test \<^verbatim>\<open>arb::in()\<close>), \<open>convert\<close> (the two
  calls inside \<^verbatim>\<open>try\<close>), \<open>seed\<close> (the statements from \<^verbatim>\<open>clear_all()\<close> up to the assignment
  of \<^verbatim>\<open>try_count\<close>: the clearing of the tables and the creation of the origins) and \<open>start\<close>
  (\<^verbatim>\<open>important = t_origin\<close>). Every value of \<open>exn\<close> is an \<^verbatim>\<open>hr_exception\<close>, so the handler
  catches whatever \<open>convert\<close> throws; an exception of \<open>seed\<close> is not inside any handler.
  When the function is left before \<^verbatim>\<open>try_count = 0\<close>, \<^verbatim>\<open>try_count\<close> keeps the value it had.
\<close>

definition generate_rules ::
  "('w \<Rightarrow> 'w) \<Rightarrow> ('w \<Rightarrow> bool) \<Rightarrow> ('w \<Rightarrow> (exn + unit) \<times> 'w) \<Rightarrow> ('w \<Rightarrow> (exn + unit) \<times> 'w) \<Rightarrow> ('w \<Rightarrow> 'w)
     \<Rightarrow> (int \<Rightarrow> 'w \<Rightarrow> (exn + unit) \<times> 'w) \<Rightarrow> ('w \<Rightarrow> 32 word) \<Rightarrow> int \<Rightarrow> int \<Rightarrow> int \<Rightarrow> 'w
     \<Rightarrow> (exn + unit) \<times> int \<times> 'w" where
  "generate_rules delete_tmap arb_in convert seed start body ticks rulegen_timeout max_retries
       try_count w =
     (let start_time = ticks w;
          w0 = delete_tmap w
      in case (if arb_in w0 then (Inr (), w0) else convert w0) of
           (Inl e, w1) \<Rightarrow> (Inl (rulegen_surrender ''conversion failure''), try_count, w1)
         | (Inr u, w1) \<Rightarrow>
             (case seed w1 of
                (Inl e, w2) \<Rightarrow> (Inl e, try_count, w2)
              | (Inr u', w2) \<Rightarrow>
                  generate_rules_loop body ticks start_time rulegen_timeout max_retries 0
                    (start w2)))"

text \<open>
  For the examples: iterations and clocks over a world that counts the iterations run.
\<close>

definition always_retry :: "int \<Rightarrow> nat \<Rightarrow> (exn + unit) \<times> nat" where
  "always_retry n w = (Inl (rulegen_retry ''mismatch error''), w + 1)"

definition retry_once :: "int \<Rightarrow> nat \<Rightarrow> (exn + unit) \<times> nat" where
  "retry_once n w = (if w = 0 then Inl (rulegen_retry ''mismatch error'') else Inr (), w + 1)"

definition always_surrender :: "int \<Rightarrow> nat \<Rightarrow> (exn + unit) \<times> nat" where
  "always_surrender n w = (Inl (rulegen_surrender ''max_tcellcount exceeded''), w + 1)"

definition early_clock :: "nat \<Rightarrow> 32 word" where
  "early_clock w = 0"

definition late_clock :: "nat \<Rightarrow> 32 word" where
  "late_clock w = (if w = 0 then 0 else 70000)"

subsection \<open>Integers of the source\<close>

text \<open>
  \<open>c_rem\<close> is the \<^verbatim>\<open>%\<close> of C++ on \<^verbatim>\<open>int\<close>: the remainder of the division
  that truncates towards zero (the sign follows the dividend). The source never divides
  by zero where the tessellation is well formed (\<^verbatim>\<open>cycle_length > 0\<close>).

  Modelled from the spec: \<open>gmod\<close>, the non-negative remainder the walker arithmetic uses
  ("rotates spin mod type"); its definition is in a file that is not part of the sources.
\<close>

definition c_rem :: "int \<Rightarrow> int \<Rightarrow> int" where
  "c_rem a b = sgn a * (\<bar>a\<bar> mod \<bar>b\<bar>)"

definition gmod :: "int \<Rightarrow> int \<Rightarrow> int" where
  "gmod i j = i mod j"

definition MYSTERY :: int where
  "MYSTERY = 31999"

text \<open>
  The behaviour flags are bits of the global \<^verbatim>\<open>flags\<close>; \<^verbatim>\<open>Flag(i)\<close> is the value
  with bit \<open>i\<close> set (the macro is declared outside the sources). A test
  \<^verbatim>\<open>flags & w\<close> is true when the conjunction is not zero.
\<close>

type_synonym flagtype = "64 word"

definition Flag :: "nat \<Rightarrow> flagtype" where
  "Flag i = push_bit i 1"

definition w_near_solid :: flagtype where
  "w_near_solid = Flag 2"

definition w_no_relative_distance :: flagtype where
  "w_no_relative_distance = Flag 6"

definition w_parent_always :: flagtype where
  "w_parent_always = Flag 10"

definition w_parent_never :: flagtype where
  "w_parent_never = Flag 13"

definition flag_set :: "flagtype \<Rightarrow> flagtype \<Rightarrow> bool" where
  "flag_set flags w = (flags AND w \<noteq> 0)"

subsection \<open>Classification codes and rule codes\<close>

definition C_IGNORE :: int where "C_IGNORE = 0"
definition C_CHILD :: int where "C_CHILD = 1"
definition C_UNCLE :: int where "C_UNCLE = 2"
definition C_EQUAL :: int where "C_EQUAL = 4"
definition C_NEPHEW :: int where "C_NEPHEW = 6"
definition C_PARENT :: int where "C_PARENT = 8"

definition DIR_UNKNOWN :: int where "DIR_UNKNOWN = -1"
definition DIR_LEFT :: int where "DIR_LEFT = -4"
definition DIR_RIGHT :: int where "DIR_RIGHT = -5"
definition DIR_PARENT :: int where "DIR_PARENT = -6"

subsection \<open>The parent-direction oracle: the choice among the nearer neighbours\<close>

text \<open>
  The lambda \<^verbatim>\<open>beats\<close> of \<^verbatim>\<open>get_parent_dir\<close>, with \<open>k\<close> the shape's
  \<^verbatim>\<open>cycle_length\<close>:
  \<^verbatim>\<open>if(old == -1) return true; if(i%k != old%k) return i%k < old%k; return true;\<close>
\<close>

definition beats :: "int \<Rightarrow> int \<Rightarrow> int \<Rightarrow> bool" where
  "beats k i old =
     (if old = -1 then True
      else if c_rem i k \<noteq> c_rem old k then c_rem i k < c_rem old k
      else True)"

text \<open>
  The first scan, \<^verbatim>\<open>for(auto ne: nearer) if(beats(ne, bestd)) bestd = ne;\<close>, from a given
  \<^verbatim>\<open>bestd\<close> (the source starts it at \<open>-1\<close>), and the second scan,
  \<^verbatim>\<open>for(auto ne: nearer) if(ne != bestd && beats(ne, bestd)) failed = true;\<close>.
\<close>

definition cheap_scan :: "int \<Rightarrow> int list \<Rightarrow> int \<Rightarrow> int" where
  "cheap_scan k nearer bestd = foldl (\<lambda>b ne. if beats k ne b then ne else b) bestd nearer"

definition scan_failed :: "int \<Rightarrow> int list \<Rightarrow> int \<Rightarrow> bool \<Rightarrow> bool" where
  "scan_failed k nearer bestd failed =
     foldl (\<lambda>f ne. if ne \<noteq> bestd \<and> beats k ne bestd then True else f) failed nearer"

text \<open>
  The exhaustive pass after the label \<^verbatim>\<open>resolve\<close>:
  \<^verbatim>\<open>for(auto ne1: nearer) if(ne1 != bestd && beats_exhaustive(twalker(c, ne1), twalker(c, bestd))) bestd = ne1;\<close>.
  \<^verbatim>\<open>beats_exhaustive\<close> walks towards the root through the whole distance engine; here it
  is the parameter \<open>bx\<close>, which may change the state \<open>'s\<close>, may throw and may not return.
\<close>

fun exhaustive_scan ::
  "('s \<Rightarrow> int \<Rightarrow> int \<Rightarrow> (exn + 's \<times> bool) option) \<Rightarrow> 's \<Rightarrow> int list \<Rightarrow> int
     \<Rightarrow> (exn + 's \<times> int) option" where
  "exhaustive_scan bx s [] bestd = Some (Inr (s, bestd))"
| "exhaustive_scan bx s (ne1 # rest) bestd =
     (if ne1 \<noteq> bestd then
        (case bx s ne1 bestd of
           None \<Rightarrow> None
         | Some (Inl e) \<Rightarrow> Some (Inl e)
         | Some (Inr (s', b)) \<Rightarrow> exhaustive_scan bx s' rest (if b then ne1 else bestd))
      else exhaustive_scan bx s rest bestd)"

subsection \<open>The analyzer codes: \<^verbatim>\<open>id_at_spin\<close>\<close>

text \<open>
  \<^verbatim>\<open>id_at_spin\<close> classifies every walker \<^verbatim>\<open>cs\<close> of the spread of the analyzer. What
  the loop body reads from the distance engine and from the parent oracle at one entry is
  collected in an \<open>entry_view\<close>:
  \<^item> \<open>ev_dist\<close>: \<^verbatim>\<open>cs.at->dist\<close> as tested by \<^verbatim>\<open>if(cs.at->dist)\<close>;
  \<^item> \<open>ev_own_parent\<close>: whether \<^verbatim>\<open>cs == get_parent_dir(cs)\<close>;
  \<^item> \<open>ev_dist_fixed\<close>, \<open>ev_peek_dist\<close>: \<^verbatim>\<open>cs.at->dist\<close> and \<^verbatim>\<open>cs.peek()->dist\<close>
    after \<^verbatim>\<open>fix_distances(cs.at)\<close>;
  \<^item> \<open>ev_side\<close>: the value of \<^verbatim>\<open>get_side(cs)\<close>.
\<close>

record entry_view =
  ev_dist :: int
  ev_own_parent :: bool
  ev_dist_fixed :: int
  ev_peek_dist :: int
  ev_side :: int

text \<open>
  The branch of the loop body that is reached when the entry is neither ignored, nor the
  root entry, nor a child:
  \<^verbatim>\<open>int y = cs.at->dist - cs.peek()->dist;
  if(!(flags & w_no_relative_distance)) x = C_EQUAL;
  else if(y == 1) x = C_NEPHEW; else if(y == 0) x = C_EQUAL; else if(y == -1) x = C_UNCLE;
  else throw rulegen_failure("distance problem ...");
  auto gs = get_side(cs);
  if(gs == 0 && x == C_UNCLE) x = C_PARENT;
  if(gs > 0) x++;\<close>
\<close>

definition classify_relative :: "flagtype \<Rightarrow> entry_view \<Rightarrow> exn + int" where
  "classify_relative flags v =
     (let y = ev_dist_fixed v - ev_peek_dist v in
      case (if \<not> flag_set flags w_no_relative_distance then Inr C_EQUAL
            else if y = 1 then Inr C_NEPHEW
            else if y = 0 then Inr C_EQUAL
            else if y = -1 then Inr C_UNCLE
            else Inl (rulegen_failure ''distance problem'')) of
        Inl e \<Rightarrow> Inl e
      | Inr x \<Rightarrow>
          (let gs = ev_side v;
               x1 = (if gs = 0 \<and> x = C_UNCLE then C_PARENT else x);
               x2 = (if gs > 0 then x1 + 1 else x1)
           in Inr x2))"

text \<open>
  One turn of the loop: \<open>res\<close> is \<^verbatim>\<open>res.second\<close> so far, \<open>idx\<close> the position \<^verbatim>\<open>id\<close> and
  \<open>pid\<close> the entry \<^verbatim>\<open>a.parent_id[id]\<close>. The read \<^verbatim>\<open>res.second[pid]\<close> outside the
  vector is undefined in C++ (\<open>None\<close>).
\<close>

definition classify_entry ::
  "flagtype \<Rightarrow> int list \<Rightarrow> nat \<Rightarrow> int \<Rightarrow> entry_view \<Rightarrow> (exn + int) option" where
  "classify_entry flags res idx pid v =
     (if pid > -1 \<and> nat pid \<ge> length res then None
      else if pid > -1 \<and> res ! nat pid \<noteq> C_CHILD then Some (Inr C_IGNORE)
      else if idx = 0 then Some (Inr C_CHILD)
      else
        (let child = (if ev_dist v \<noteq> 0 then ev_own_parent v else False) in
         if child then Some (Inr C_CHILD)
         else Some (classify_relative flags v)))"

text \<open>
  The loop \<^verbatim>\<open>for(auto cs: sprawl)\<close>: the views of the entries still to visit, the list
  \<^verbatim>\<open>a.parent_id\<close>, the position \<open>idx\<close> (\<^verbatim>\<open>id\<close> in the source) and the classifications pushed so far.
\<close>

fun id_at_spin_loop ::
  "flagtype \<Rightarrow> int list \<Rightarrow> entry_view list \<Rightarrow> nat \<Rightarrow> int list \<Rightarrow> (exn + int list) option" where
  "id_at_spin_loop flags parent_id [] idx res = Some (Inr res)"
| "id_at_spin_loop flags parent_id (v # vs) idx res =
     (if idx \<ge> length parent_id then None
      else case classify_entry flags res idx (parent_id ! idx) v of
             None \<Rightarrow> None
           | Some (Inl e) \<Rightarrow> Some (Inl e)
           | Some (Inr x) \<Rightarrow> id_at_spin_loop flags parent_id vs (idx + 1) (res @ [x]))"

definition id_at_spin :: "flagtype \<Rightarrow> int list \<Rightarrow> entry_view list \<Rightarrow> (exn + int list) option" where
  "id_at_spin flags parent_id sprawl = id_at_spin_loop flags parent_id sprawl 0 []"

subsection \<open>The rule builder: \<^verbatim>\<open>gen_rule\<close>\<close>

text \<open>
  The first loop of \<^verbatim>\<open>gen_rule\<close> visits every edge \<open>a\<close> of the main walker. What it
  reads at the neighbour \<^verbatim>\<open>c1 = cwmain + a + wstep\<close> is an \<open>edge_view\<close>:
  \<^item> \<open>c1_dist\<close>: \<^verbatim>\<open>c1.at->dist\<close> after \<^verbatim>\<open>be_solid(c1.at)\<close>;
  \<^item> \<open>c1_code\<close>: the pair \<^verbatim>\<open>(d1, id1)\<close> returned by \<^verbatim>\<open>get_code(c1)\<close>;
  \<^item> \<open>c1_back\<close>: whether \<^verbatim>\<open>c1.at->cmove(d1) == cwmain.at\<close> and
    \<^verbatim>\<open>c1.at->c.spin(d1) == front.spin\<close>.
\<close>

record edge_view =
  c1_dist :: int
  c1_code :: "int \<times> int"
  c1_back :: bool

fun gen_rule_edges :: "int \<Rightarrow> nat \<Rightarrow> edge_view list \<Rightarrow> int list" where
  "gen_rule_edges main_dist a [] = []"
| "gen_rule_edges main_dist a (v # vs) =
     (if a = 0 \<and> main_dist \<noteq> 0 then DIR_PARENT
      else if c1_dist v \<le> main_dist then DIR_UNKNOWN
      else if \<not> c1_back v then DIR_UNKNOWN
      else snd (c1_code v)) # gen_rule_edges main_dist (a + 1) vs"

text \<open>
  The second loop:
  \<^verbatim>\<open>for(int i=0; i<isize(cids); i++) if(cids[i] == DIR_UNKNOWN) {
    int val = treestates[id].code.second[i+1];
    if(val < 2 || val >= 8) throw rulegen_retry("wrong code in gen_rule");
    cids[i] = ((val & 1) ? DIR_RIGHT : DIR_LEFT); }\<close>
  Here \<open>code\<close> is \<^verbatim>\<open>treestates[id].code.second\<close>, \<open>i\<close> the position of the head of
  the list; a read past the end of \<open>code\<close> is undefined in C++ (\<open>None\<close>).
\<close>

fun gen_rule_resolve :: "int list \<Rightarrow> nat \<Rightarrow> int list \<Rightarrow> (exn + int list) option" where
  "gen_rule_resolve code i [] = Some (Inr [])"
| "gen_rule_resolve code i (c # cs) =
     (if c = DIR_UNKNOWN then
        (if i + 1 \<ge> length code then None
         else
           (let val = code ! (i + 1) in
            if val < 2 \<or> val \<ge> 8 then Some (Inl (rulegen_retry ''wrong code in gen_rule''))
            else case gen_rule_resolve code (i + 1) cs of
                   None \<Rightarrow> None
                 | Some (Inl e) \<Rightarrow> Some (Inl e)
                 | Some (Inr r) \<Rightarrow>
                     Some (Inr ((if val AND 1 \<noteq> 0 then DIR_RIGHT else DIR_LEFT) # r))))
      else case gen_rule_resolve code (i + 1) cs of
             None \<Rightarrow> None
           | Some (Inl e) \<Rightarrow> Some (Inl e)
           | Some (Inr r) \<Rightarrow> Some (Inr (c # r)))"

definition gen_rule :: "int \<Rightarrow> edge_view list \<Rightarrow> int list \<Rightarrow> (exn + int list) option" where
  "gen_rule main_dist views code = gen_rule_resolve code 0 (gen_rule_edges main_dist 0 views)"

subsection \<open>Tree states and \<^verbatim>\<open>find_possible_parents\<close>\<close>

text \<open>
  The struct \<^verbatim>\<open>treestate\<close>. The fields \<^verbatim>\<open>id\<close> and \<^verbatim>\<open>parent_dir\<close> are prefixed, since
  \<open>id\<close> is a constant of HOL and a tile has a \<^verbatim>\<open>parent_dir\<close> of its own. The fields
  \<^verbatim>\<open>giver\<close>, \<^verbatim>\<open>where_seen\<close> (walkers into the tile arena) and \<^verbatim>\<open>code\<close> are neither
  read nor written by the functions of this section and are left out.
\<close>

record treestate =
  ts_id :: int
  known :: bool
  rules :: "int list"
  sid :: int
  ts_parent_dir :: int
  is_live :: bool
  is_possible_parent :: bool
  is_root :: bool
  possible_parents :: "(int \<times> int) list"

text \<open>
  The first loop of \<^verbatim>\<open>find_possible_parents\<close>:
  \<^verbatim>\<open>ts.is_possible_parent = false; for(int r: ts.rules) if(r == DIR_PARENT) ts.is_possible_parent = true;\<close>
\<close>

definition mark_initial :: "treestate \<Rightarrow> treestate" where
  "mark_initial ts =
     ts\<lparr>is_possible_parent := foldl (\<lambda>b r. if r = DIR_PARENT then True else b) False (rules ts)\<rparr>"

text \<open>
  One turn of \<^verbatim>\<open>while(true)\<close>. First every list \<^verbatim>\<open>possible_parents\<close> is cleared. Then,
  for every state that is marked, the loop over its rules
  \<^verbatim>\<open>if(r >= 0) treestates[r].possible_parents.emplace_back(ts.id, rid); rid++;\<close>
  runs; an index \<^verbatim>\<open>r\<close> past the end of \<^verbatim>\<open>treestates\<close> is undefined in C++ (\<open>None\<close>).
\<close>

definition clear_parents :: "treestate list \<Rightarrow> treestate list" where
  "clear_parents tss = map (\<lambda>ts. ts\<lparr>possible_parents := []\<rparr>) tss"

fun add_rules :: "treestate list \<Rightarrow> int \<Rightarrow> int \<Rightarrow> int list \<Rightarrow> treestate list option" where
  "add_rules tss tid rid [] = Some tss"
| "add_rules tss tid rid (r # rs) =
     (if r \<ge> 0 then
        (if nat r < length tss then
           add_rules
             (tss[nat r := (tss ! nat r)\<lparr>possible_parents :=
                               possible_parents (tss ! nat r) @ [(tid, rid)]\<rparr>])
             tid (rid + 1) rs
         else None)
      else add_rules tss tid (rid + 1) rs)"

definition collect_step :: "nat \<Rightarrow> treestate list option \<Rightarrow> treestate list option" where
  "collect_step i acc =
     (case acc of
        None \<Rightarrow> None
      | Some tss \<Rightarrow>
          if is_possible_parent (tss ! i) then add_rules tss (ts_id (tss ! i)) 0 (rules (tss ! i))
          else Some tss)"

definition collect_parents :: "treestate list \<Rightarrow> treestate list option" where
  "collect_parents tss = fold collect_step [0..<length tss] (Some tss)"

text \<open>
  The last loop of the turn:
  \<^verbatim>\<open>if(ts.is_possible_parent && ts.possible_parents.empty()) { ts.is_possible_parent = false; changes++; }\<close>
\<close>

definition orphan :: "treestate \<Rightarrow> bool" where
  "orphan ts = (is_possible_parent ts \<and> possible_parents ts = [])"

definition prune_orphans :: "treestate list \<Rightarrow> treestate list" where
  "prune_orphans tss = map (\<lambda>ts. if orphan ts then ts\<lparr>is_possible_parent := False\<rparr> else ts) tss"

definition changes :: "treestate list \<Rightarrow> nat" where
  "changes tss = length (filter orphan tss)"

definition marked :: "treestate list \<Rightarrow> nat" where
  "marked tss = length (filter is_possible_parent tss)"


text \<open>
  Collecting the lists does not change the marks, and pruning removes as many marks as it
  counts changes: the loop below terminates, since every turn but the last removes a mark.
\<close>

lemma add_rules_flags:
  "add_rules tss tid rid rs = Some tss' \<Longrightarrow>
     map is_possible_parent tss' = map is_possible_parent tss"
proof (induction rs arbitrary: tss rid)
  case Nil
  then show ?case by simp
next
  case (Cons r rs)
  show ?case
  proof (cases "r \<ge> 0")
    case False
    with Cons show ?thesis by simp
  next
    case True
    with Cons.prems have lt: "nat r < length tss" by (auto split: if_splits)
    let ?t = "tss[nat r := (tss ! nat r)\<lparr>possible_parents :=
                               possible_parents (tss ! nat r) @ [(tid, rid)]\<rparr>]"
    have "add_rules ?t tid (rid + 1) rs = Some tss'" using Cons.prems True lt by simp
    from Cons.IH [OF this] have "map is_possible_parent tss' = map is_possible_parent ?t" .
    also have "\<dots> = map is_possible_parent tss"
      using lt by (simp add: map_update list_update_same_conv)
    finally show ?thesis .
  qed
qed

lemma collect_step_flags:
  "collect_step i (Some tss) = Some tss' \<Longrightarrow>
     map is_possible_parent tss' = map is_possible_parent tss"
  by (auto simp: collect_step_def add_rules_flags split: if_splits)

lemma fold_collect_flags:
  "fold collect_step is (Some tss) = Some tss' \<Longrightarrow>
     map is_possible_parent tss' = map is_possible_parent tss"
proof (induction "is" arbitrary: tss)
  case Nil
  then show ?case by simp
next
  case (Cons i "is")
  show ?case
  proof (cases "collect_step i (Some tss)")
    case None
    have "fold collect_step is None = None" by (induction "is") (simp_all add: collect_step_def)
    with Cons.prems None show ?thesis by simp
  next
    case (Some t1)
    with Cons.prems have "fold collect_step is (Some t1) = Some tss'" by simp
    from Cons.IH [OF this] collect_step_flags [OF Some] show ?thesis by simp
  qed
qed

lemma collect_parents_marked:
  "collect_parents (clear_parents tss) = Some tss' \<Longrightarrow> marked tss' = marked tss"
proof -
  assume "collect_parents (clear_parents tss) = Some tss'"
  then have "map is_possible_parent tss' = map is_possible_parent (clear_parents tss)"
    unfolding collect_parents_def by (rule fold_collect_flags)
  also have "\<dots> = map is_possible_parent tss" by (simp add: clear_parents_def)
  finally have "map is_possible_parent tss' = map is_possible_parent tss" .
  then have "length (filter id (map is_possible_parent tss')) = length (filter id (map is_possible_parent tss))"
    by simp
  then show ?thesis by (simp add: marked_def filter_map comp_def)
qed

lemma prune_marked:
  "marked (prune_orphans tss) + changes tss = marked tss"
  unfolding marked_def prune_orphans_def changes_def
  by (induction tss) (auto simp: orphan_def)

text \<open>
  The loop \<^verbatim>\<open>while(true) { ... if(!changes) break; }\<close> and the function itself. (The count
  \<^verbatim>\<open>pp\<close> at the end of the source is only printed.)
\<close>

function find_possible_parents_loop :: "treestate list \<Rightarrow> treestate list option" where
  "find_possible_parents_loop tss =
     (case collect_parents (clear_parents tss) of
        None \<Rightarrow> None
      | Some tss1 \<Rightarrow>
          if changes tss1 = 0 then Some (prune_orphans tss1)
          else find_possible_parents_loop (prune_orphans tss1))"
  by pat_completeness auto
termination
proof (relation "measure marked")
  show "wf (measure marked)" by simp
next
  fix tss tss1
  assume c: "collect_parents (clear_parents tss) = Some tss1" and ch: "changes tss1 \<noteq> 0"
  have "marked (prune_orphans tss1) + changes tss1 = marked tss"
    using prune_marked [of tss1] collect_parents_marked [OF c] by simp
  with ch show "(prune_orphans tss1, tss) \<in> measure marked" by simp
qed

declare find_possible_parents_loop.simps [simp del]

definition find_possible_parents :: "treestate list \<Rightarrow> treestate list option" where
  "find_possible_parents tss = find_possible_parents_loop (map mark_initial tss)"

text \<open>
  Predicates used to state what \<^verbatim>\<open>find_possible_parents\<close> computes: \<open>core\<close> forgets the
  two fields the function writes; \<open>in_range\<close> says that every non-negative rule is an
  index of the table; \<open>survivors tss res\<close> relates the table before the loop to the table
  after it. \<open>mk_state\<close> builds the states of the examples.
\<close>

definition core :: "treestate \<Rightarrow> treestate" where
  "core ts = ts\<lparr>is_possible_parent := False, possible_parents := []\<rparr>"

definition in_range :: "treestate list \<Rightarrow> bool" where
  "in_range tss = (\<forall>ts \<in> set tss. \<forall>r \<in> set (rules ts). 0 \<le> r \<longrightarrow> nat r < length tss)"

definition survivors :: "treestate list \<Rightarrow> treestate list \<Rightarrow> bool" where
  "survivors tss res \<longleftrightarrow>
     map core res = map core tss
   \<and> (\<forall>j < length tss. is_possible_parent (res ! j)
         \<longrightarrow> is_possible_parent (tss ! j) \<and> possible_parents (res ! j) \<noteq> [])
   \<and> (\<forall>j < length tss. \<forall>p e. (p, e) \<in> set (possible_parents (res ! j)) \<longleftrightarrow>
         (\<exists>i < length tss. p = ts_id (tss ! i) \<and> is_possible_parent (res ! i) \<and> 0 \<le> e
            \<and> nat e < length (rules (tss ! i)) \<and> rules (tss ! i) ! nat e = int j))
   \<and> (\<forall>S. (\<forall>j \<in> S. j < length tss \<and> is_possible_parent (tss ! j)
                \<and> (\<exists>i \<in> S. int j \<in> set (rules (tss ! i))))
         \<longrightarrow> (\<forall>j \<in> S. is_possible_parent (res ! j)))"

definition mk_state :: "int \<Rightarrow> int list \<Rightarrow> bool \<Rightarrow> treestate" where
  "mk_state i rs live =
     \<lparr>ts_id = i, known = True, rules = rs, sid = 0, ts_parent_dir = 0, is_live = live,
      is_possible_parent = False, is_root = (i = 0), possible_parents = []\<rparr>"

subsection \<open>Tiles and walkers\<close>

text \<open>
  A tile (\<^verbatim>\<open>struct tcell\<close>) lives in the arena at an address, a natural number; the arena
  is the field \<open>tiles\<close> of the generator state. The fields \<^verbatim>\<open>id\<close>, \<^verbatim>\<open>type\<close> and
  \<^verbatim>\<open>code\<close> are prefixed. The connection table \<^verbatim>\<open>c\<close> is the field \<open>c_move\<close>: at a
  direction it holds nothing (\<^verbatim>\<open>move(d)\<close> is null) or the neighbour \<^verbatim>\<open>move(d)\<close> together
  with \<^verbatim>\<open>c.spin(d)\<close>. The list link \<^verbatim>\<open>next\<close> is left out. The \<^verbatim>\<open>short\<close> fields are
  integers; the generator keeps them far from the 16-bit range.

  A walker (\<^verbatim>\<open>twalker = walker<tcell>\<close>) is a tile and a spin. The template \<^verbatim>\<open>walker\<close>
  and the connection table are declared outside the sources. The generator connects every
  edge unmirrored (\<^verbatim>\<open>connect(..., false)\<close>), so the third field of a walker, \<^verbatim>\<open>mirrored\<close>,
  stays false and is left out.
\<close>

record twalker =
  at :: nat
  spin :: int

record tcell =
  tc_id :: int
  tc_type :: int
  dist :: int
  tc_code :: int
  parent_dir :: int
  old_parent_dir :: int
  any_nearer :: int
  is_solid :: bool
  distance_fixed :: bool
  unified_to :: twalker
  c_move :: "int \<Rightarrow> twalker option"

text \<open>
  The closures pushed on \<^verbatim>\<open>fix_queue\<close> are \<^verbatim>\<open>[=] { check_loops(p1); }\<close> and
  \<^verbatim>\<open>[=] { unify(a, b); }\<close>.
\<close>

datatype reaction = do_check_loops twalker | do_unify twalker twalker

record tmap =
  tiles :: "nat \<Rightarrow> tcell"
  fix_queue :: "reaction list"
  in_fixing :: bool
  tcellcount :: int
  tunified :: int
  hard_parents :: int
  parent_updates :: int

text \<open>
  Modelled from the spec: the walker operations. "\<^verbatim>\<open>+k\<close> rotates spin mod type;
  \<^verbatim>\<open>wstep\<close> crosses the current edge producing the walker on the opposite side;
  \<^verbatim>\<open>peek\<close> returns the neighbor tile if the edge is materialized." Crossing an edge that
  is not materialized would create the neighbour (\<^verbatim>\<open>cmove\<close>); the functions modelled
  below cross only edges that \<^verbatim>\<open>peek\<close> has found, so \<open>wstep\<close> is \<open>None\<close> there.
\<close>

definition wplus :: "tmap \<Rightarrow> twalker \<Rightarrow> int \<Rightarrow> twalker" where
  "wplus s w k = w\<lparr>spin := gmod (spin w + k) (tc_type (tiles s (at w)))\<rparr>"

definition peek :: "tmap \<Rightarrow> twalker \<Rightarrow> nat option" where
  "peek s w = map_option at (c_move (tiles s (at w)) (spin w))"

definition wstep :: "tmap \<Rightarrow> twalker \<Rightarrow> twalker option" where
  "wstep s w = c_move (tiles s (at w)) (spin w)"

subsection \<open>Union-find: \<^verbatim>\<open>ufind\<close>\<close>

text \<open>
  \<^verbatim>\<open>void ufind(twalker& p) {
    if(p.at->unified_to.at == p.at) return;
    twalker p1 = p.at->unified_to;
    ufind(p1);
    p.at->unified_to = p1;
    p = p1 + p.spin; }\<close>
  The recursion ends only if the chain of links reaches a tile linked to itself, so the
  function is partial: \<open>None\<close> stands for a recursion that does not end. The result is
  the new state and the new value of the reference \<open>p\<close>.
\<close>

definition set_unified_to :: "nat \<Rightarrow> twalker \<Rightarrow> tmap \<Rightarrow> tmap" where
  "set_unified_to t w s = s\<lparr>tiles := (tiles s)(t := (tiles s t)\<lparr>unified_to := w\<rparr>)\<rparr>"

partial_function (option) ufind :: "tmap \<Rightarrow> twalker \<Rightarrow> (tmap \<times> twalker) option" where
  "ufind s p =
     (if at (unified_to (tiles s (at p))) = at p then Some (s, p)
      else
        Option.bind (ufind s (unified_to (tiles s (at p))))
          (\<lambda>(s1, p1). Some (set_unified_to (at p) p1 s1, wplus s1 p1 (spin p))))"

declare ufind.simps [code]

text \<open>
  \<open>resolves s p q\<close>: following the links from the tile of \<open>p\<close> reaches a tile linked to
  itself, and \<open>q\<close> is the walker on that tile obtained by adding the spins met on the
  way back, each sum reduced modulo the type of that tile. \<open>compressed s s'\<close>: the state
  \<open>s'\<close> is \<open>s\<close> but for links, each of which is the same or has been replaced by the
  walker it resolved to.
\<close>

inductive resolves :: "tmap \<Rightarrow> twalker \<Rightarrow> twalker \<Rightarrow> bool" for s :: tmap where
  rep: "at (unified_to (tiles s (at p))) = at p \<Longrightarrow> resolves s p p"
| link: "at (unified_to (tiles s (at p))) \<noteq> at p \<Longrightarrow> resolves s (unified_to (tiles s (at p))) p1
          \<Longrightarrow> resolves s p (wplus s p1 (spin p))"

code_pred resolves .

definition compressed :: "tmap \<Rightarrow> tmap \<Rightarrow> bool" where
  "compressed s s' \<longleftrightarrow>
     s'\<lparr>tiles := tiles s\<rparr> = s
   \<and> (\<forall>t. (tiles s' t)\<lparr>unified_to := unified_to (tiles s t)\<rparr> = tiles s t
          \<and> (unified_to (tiles s' t) = unified_to (tiles s t)
               \<or> (at (unified_to (tiles s t)) \<noteq> t
                    \<and> resolves s (unified_to (tiles s t)) (unified_to (tiles s' t)))))"

text \<open>An arena of three tiles of type 7: tile 2 is linked to tile 1 with spin 3, tile 1 to tile 0 with
  spin 2, and every other tile to itself.\<close>

definition example_arena :: tmap where
  "example_arena =
     \<lparr>tiles = (\<lambda>t. \<lparr>tc_id = 0, tc_type = 7, dist = MYSTERY, tc_code = MYSTERY,
                       parent_dir = MYSTERY, old_parent_dir = MYSTERY, any_nearer = 0,
                       is_solid = False, distance_fixed = False,
                       unified_to = (if t = 1 then \<lparr>at = 0, spin = 2\<rparr>
                                     else if t = 2 then \<lparr>at = 1, spin = 3\<rparr>
                                     else \<lparr>at = t, spin = 0\<rparr>),
                       c_move = (\<lambda>d. None)\<rparr>),
      fix_queue = [], in_fixing = False, tcellcount = 3, tunified = 2, hard_parents = 0,
      parent_updates = 0\<rparr>"

subsection \<open>Shapes\<close>

text \<open>
  The tessellation descriptor \<^verbatim>\<open>arb::current.shapes\<close> is read-only input, declared outside
  the sources; it is the parameter \<open>shs\<close> of the functions below. Of a shape the generator
  reads \<^verbatim>\<open>size()\<close>, \<^verbatim>\<open>cycle_length\<close>, \<^verbatim>\<open>vertex_valence\<close> and \<^verbatim>\<open>connections\<close> (each a
  triple of target shape, target edge and mirror bit). Indexing a vector outside its range
  is undefined in C++: the lookups are \<open>None\<close> there.
\<close>

record shape =
  sh_size :: int
  cycle_length :: int
  vertex_valence :: "int list"
  connections :: "(int \<times> int \<times> bool) list"

definition shape_of :: "shape list \<Rightarrow> int \<Rightarrow> shape option" where
  "shape_of shs i = (if 0 \<le> i \<and> nat i < length shs then Some (shs ! nat i) else None)"


subsection \<open>The fix queue, \<^verbatim>\<open>connect_and_check\<close> and \<^verbatim>\<open>check_loops\<close>\<close>

text \<open>
  \<^verbatim>\<open>check_loops\<close>, \<^verbatim>\<open>connect_and_check\<close>, \<^verbatim>\<open>process_fix_queue\<close> and \<^verbatim>\<open>unify\<close> call one
  another through the closures of \<^verbatim>\<open>fix_queue\<close>, and they call the distance engine
  (\<^verbatim>\<open>fix_distances\<close>, \<^verbatim>\<open>unify_distances\<close>), which calls back into all of them. The three
  entries into that recursion are the fields of an \<open>engine\<close>: \<open>run_reaction\<close> runs one
  closure of the queue, \<open>fix_distances\<close> and \<open>unify_distances\<close> stand for the functions of
  these names. Every result is an option: \<open>None\<close> is a call that does not return (or has
  no defined behaviour), \<open>Some (Inl e)\<close> one that throws \<open>e\<close>, \<open>Some (Inr s)\<close> one that
  returns and leaves the state \<open>s\<close>.
\<close>

record engine =
  run_reaction :: "reaction \<Rightarrow> tmap \<Rightarrow> (exn + tmap) option"
  fix_distances :: "nat \<Rightarrow> tmap \<Rightarrow> (exn + tmap) option"
  unify_distances :: "nat \<Rightarrow> nat \<Rightarrow> int \<Rightarrow> tmap \<Rightarrow> (exn + tmap) option"

text \<open>
  \<^verbatim>\<open>void push_unify(twalker a, twalker b) {
    if(a.at->id != b.at->id) throw hr_exception("queued bad unify");
    fix_queue.push([=] { unify(a, b); }); }\<close>
\<close>

definition push_unify :: "twalker \<Rightarrow> twalker \<Rightarrow> tmap \<Rightarrow> exn + tmap" where
  "push_unify a b s =
     (if tc_id (tiles s (at a)) \<noteq> tc_id (tiles s (at b)) then Inl (hr_exception ''queued bad unify'')
      else Inr (s\<lparr>fix_queue := fix_queue s @ [do_unify a b]\<rparr>))"

text \<open>
  \<^verbatim>\<open>process_fix_queue\<close>: the loop \<^verbatim>\<open>while(!fix_queue.empty()) { fix_queue.front()();
  fix_queue.pop(); }\<close> runs the front closure while it is still in the queue and pops it
  afterwards; the closure may push others.
\<close>

partial_function (option) drain_fix_queue ::
  "(reaction \<Rightarrow> tmap \<Rightarrow> (exn + tmap) option) \<Rightarrow> tmap \<Rightarrow> (exn + tmap) option" where
  "drain_fix_queue run s =
     (case fix_queue s of
        [] \<Rightarrow> Some (Inr s)
      | r # rest \<Rightarrow>
          (case run r s of
             None \<Rightarrow> None
           | Some (Inl e) \<Rightarrow> Some (Inl e)
           | Some (Inr s') \<Rightarrow> drain_fix_queue run (s'\<lparr>fix_queue := tl (fix_queue s')\<rparr>)))"

declare drain_fix_queue.simps [code]

definition process_fix_queue :: "engine \<Rightarrow> tmap \<Rightarrow> (exn + tmap) option" where
  "process_fix_queue E s =
     (if in_fixing s then Some (Inr s)
      else case drain_fix_queue (run_reaction E) (s\<lparr>in_fixing := True\<rparr>) of
             None \<Rightarrow> None
           | Some (Inl e) \<Rightarrow> Some (Inl e)
           | Some (Inr s') \<Rightarrow> Some (Inr (s'\<lparr>in_fixing := False\<rparr>)))"

text \<open>
  Modelled from the spec: \<open>connect\<close>, the method of the connection table, which is declared
  outside the sources ("install the edge in both directions").
\<close>

definition set_move :: "twalker \<Rightarrow> twalker \<Rightarrow> tmap \<Rightarrow> tmap" where
  "set_move p q s =
     s\<lparr>tiles := (tiles s)(at p := (tiles s (at p))\<lparr>c_move := (c_move (tiles s (at p)))(spin p := Some q)\<rparr>)\<rparr>"

definition connect :: "twalker \<Rightarrow> twalker \<Rightarrow> tmap \<Rightarrow> tmap" where
  "connect p1 p2 s = set_move p2 p1 (set_move p1 p2 s)"

text \<open>
  \<^verbatim>\<open>void connect_and_check(twalker p1, twalker p2) {
    ufind(p1); ufind(p2);
    p1.at->c.connect(p1.spin, p2.at, p2.spin, false);
    fix_queue.push([=] { check_loops(p1); });
    fix_queue.push([=] { check_loops(p2); });
    process_fix_queue(); }\<close>
\<close>

definition connect_and_check :: "engine \<Rightarrow> twalker \<Rightarrow> twalker \<Rightarrow> tmap \<Rightarrow> (exn + tmap) option" where
  "connect_and_check E p1 p2 s =
     (case ufind s p1 of
        None \<Rightarrow> None
      | Some (s1, q1) \<Rightarrow>
          (case ufind s1 p2 of
             None \<Rightarrow> None
           | Some (s2, q2) \<Rightarrow>
               (let s3 = connect q1 q2 s2;
                    s4 = s3\<lparr>fix_queue := fix_queue s3 @ [do_check_loops q1, do_check_loops q2]\<rparr>
                in process_fix_queue E s4)))"











text \<open>
  For the examples: a table with one heptagonal shape, three tiles at every vertex; the
  same with a single tile at every vertex; and an engine none of whose entries returns.
\<close>

definition example_shapes :: "shape list" where
  "example_shapes =
     [\<lparr>sh_size = 7, cycle_length = 1, vertex_valence = [3, 3, 3, 3, 3, 3, 3],
       connections = replicate 7 (0, 0, False)\<rparr>]"

definition example_shapes1 :: "shape list" where
  "example_shapes1 =
     [\<lparr>sh_size = 7, cycle_length = 1, vertex_valence = [1, 1, 1, 1, 1, 1, 1],
       connections = replicate 7 (0, 0, False)\<rparr>]"

definition idle_engine :: engine where
  "idle_engine =
     \<lparr>run_reaction = (\<lambda>r s. None), fix_distances = (\<lambda>t s. None),
      unify_distances = (\<lambda>t1 t2 d s. None)\<rparr>"

text \<open>
  For the examples: three heptagons around a vertex of valence 3, tiles 0, 2 and 3, where
  edge 0 of tile 0 leads to tile 2 and edge 2 of tile 2 leads to tile 3; the edge that
  would close the vertex, between edge 4 of tile 3 and edge 1 of tile 0, is still open.
  The closure \<^verbatim>\<open>check_loops\<close> of the walker \<open>(0, 0)\<close> is at the front of the queue, being run.
\<close>

definition example_vertex :: tmap where
  "example_vertex =
     \<lparr>tiles = (\<lambda>t. \<lparr>tc_id = 0, tc_type = 7, dist = MYSTERY, tc_code = MYSTERY,
                       parent_dir = MYSTERY, old_parent_dir = MYSTERY, any_nearer = 0,
                       is_solid = False, distance_fixed = False,
                       unified_to = \<lparr>at = t, spin = 0\<rparr>,
                       c_move = (\<lambda>d.
                         if t = 0 \<and> d = 0 then Some \<lparr>at = 2, spin = 3\<rparr>
                         else if t = 2 \<and> d = 3 then Some \<lparr>at = 0, spin = 0\<rparr>
                         else if t = 2 \<and> d = 2 then Some \<lparr>at = 3, spin = 5\<rparr>
                         else if t = 3 \<and> d = 5 then Some \<lparr>at = 2, spin = 2\<rparr>
                         else None)\<rparr>),
      fix_queue = [do_check_loops \<lparr>at = 0, spin = 0\<rparr>], in_fixing = True, tcellcount = 4,
      tunified = 0, hard_parents = 0, parent_updates = 0\<rparr>"

subsection \<open>\<^verbatim>\<open>unify\<close>\<close>

text \<open>
  The loop of \<^verbatim>\<open>unify\<close> over the edges of the shape, \<open>n\<close> turns still to make:
  \<^verbatim>\<open>if(!pw2.peek()) { }
  else if(!pw1.peek()) connect_and_check(pw1, pw2+wstep);
  else { push_unify(pw1+wstep, pw2+wstep); auto ss = pw1+wstep;
         connect_and_check(pw1, pw2+wstep); connect_and_check(pw1, ss); }
  pw1++; pw2++;\<close>
  The result carries the two walkers as the loop leaves them.
\<close>

definition unify_edge :: "engine \<Rightarrow> twalker \<Rightarrow> twalker \<Rightarrow> tmap \<Rightarrow> (exn + tmap) option" where
  "unify_edge E pw1 pw2 s =
     (case wstep s pw2 of
        None \<Rightarrow> Some (Inr s)
      | Some w2 \<Rightarrow>
          (case wstep s pw1 of
             None \<Rightarrow> connect_and_check E pw1 w2 s
           | Some ss \<Rightarrow>
               (case push_unify ss w2 s of
                  Inl e \<Rightarrow> Some (Inl e)
                | Inr sa \<Rightarrow>
                    (case connect_and_check E pw1 w2 sa of
                       None \<Rightarrow> None
                     | Some (Inl e) \<Rightarrow> Some (Inl e)
                     | Some (Inr sb) \<Rightarrow> connect_and_check E pw1 ss sb))))"

fun unify_loop ::
  "engine \<Rightarrow> nat \<Rightarrow> twalker \<Rightarrow> twalker \<Rightarrow> tmap \<Rightarrow> (exn + tmap \<times> twalker \<times> twalker) option" where
  "unify_loop E 0 pw1 pw2 s = Some (Inr (s, pw1, pw2))"
| "unify_loop E (Suc n) pw1 pw2 s =
     (case unify_edge E pw1 pw2 s of
        None \<Rightarrow> None
      | Some (Inl e) \<Rightarrow> Some (Inl e)
      | Some (Inr s') \<Rightarrow> unify_loop E n (wplus s' pw1 1) (wplus s' pw2 1) s')"

text \<open>
  The end of \<^verbatim>\<open>unify\<close>:
  \<^verbatim>\<open>pw2.at->unified_to = pw1 - pw2.spin; tunified++; fix_distances(pw1.at);\<close>
  \<open>link_tiles\<close> is the state handed to \<^verbatim>\<open>fix_distances\<close>.
\<close>

definition link_tiles :: "twalker \<Rightarrow> twalker \<Rightarrow> tmap \<Rightarrow> tmap" where
  "link_tiles pw1 pw2 s =
     (set_unified_to (at pw2) (wplus s pw1 (- spin pw2)) s)\<lparr>tunified := tunified s + 1\<rparr>"

text \<open>
  \<^verbatim>\<open>unify\<close> itself. The test \<^verbatim>\<open>(pw1.spin - pw2.spin) % cycle_length\<close> divides by
  \<^verbatim>\<open>cycle_length\<close>; with \<^verbatim>\<open>cycle_length == 0\<close> the C++ has no defined behaviour
  (\<open>None\<close>).
\<close>

definition unify :: "engine \<Rightarrow> shape list \<Rightarrow> twalker \<Rightarrow> twalker \<Rightarrow> tmap \<Rightarrow> (exn + tmap) option" where
  "unify E shs pw1' pw2' s0 =
     (case ufind s0 pw1' of
        None \<Rightarrow> None
      | Some (s1, pw1) \<Rightarrow>
     (case ufind s1 pw2' of
        None \<Rightarrow> None
      | Some (s, pw2) \<Rightarrow>
          if pw1 = pw2 then Some (Inr s)
          else if at (unified_to (tiles s (at pw1))) \<noteq> at pw1
            then Some (Inl (hr_exception ''not unified to itself''))
          else if at (unified_to (tiles s (at pw2))) \<noteq> at pw2
            then Some (Inl (hr_exception ''not unified to itself''))
          else if at pw1 = at pw2 then
            (if spin pw1 \<noteq> spin pw2
             then Some (Inl (hr_exception ''called unify with self and wrong direction''))
             else Some (Inr s))
          else if tc_id (tiles s (at pw1)) \<noteq> tc_id (tiles s (at pw2))
            then Some (Inl (hr_exception ''unifying two cells of different id's''))
          else
            (case shape_of shs (tc_id (tiles s (at pw1))) of
               None \<Rightarrow> None
             | Some sh \<Rightarrow>
                 if cycle_length sh = 0 then None
                 else if c_rem (spin pw1 - spin pw2) (cycle_length sh) \<noteq> 0
                   then Some (Inl (hr_exception ''unification spin disagrees with cycle_length''))
                 else
                   (case unify_distances E (at pw1) (at pw2) (spin pw2 - spin pw1) s of
                      None \<Rightarrow> None
                    | Some (Inl e) \<Rightarrow> Some (Inl e)
                    | Some (Inr sd) \<Rightarrow>
                        (case unify_loop E (nat (sh_size sh)) pw1 pw2 sd of
                           None \<Rightarrow> None
                         | Some (Inl e) \<Rightarrow> Some (Inl e)
                         | Some (Inr (se, qw1, qw2)) \<Rightarrow>
                             fix_distances E (at qw1) (link_tiles qw1 qw2 se))))))"

text \<open>An engine all of whose entries return at once and change nothing.\<close>

definition plain_engine :: engine where
  "plain_engine =
     \<lparr>run_reaction = (\<lambda>r s. Some (Inr s)), fix_distances = (\<lambda>t s. Some (Inr s)),
      unify_distances = (\<lambda>t1 t2 d s. Some (Inr s))\<rparr>"

subsection \<open>\<^verbatim>\<open>be_solid\<close>, \<^verbatim>\<open>get_parent_dir\<close> and \<^verbatim>\<open>get_code\<close>\<close>

text \<open>
  The functions of this section call deeper into the generator: the shortcut store, the
  creation of tiles, the exhaustive tie-breaker and the assignment of codes. These calls
  are the fields of a \<open>parent_engine\<close>:
  \<^item> \<open>look_for_shortcuts_at\<close>: the loop of \<^verbatim>\<open>look_for_shortcuts(c)\<close> over the shortcuts
    of the shape, which runs when \<^verbatim>\<open>c->dist > 0\<close>;
  \<^item> \<open>ensure_shorter\<close>, \<open>find_new_shortcuts\<close>, \<open>beats_exhaustive\<close>: the functions of these
    names;
  \<^item> \<open>cmove\<close>: \<^verbatim>\<open>c->cmove(i)\<close>, which returns the neighbour and creates it if need be;
  \<^item> \<open>assign_code\<close>: in \<^verbatim>\<open>get_code\<close>, everything from \<^verbatim>\<open>id_at_spin(cd)\<close> on, that is the
    computation of the code, its interning as a tree state and the assignment to
    \<^verbatim>\<open>cd.at->code\<close>; it returns the id of the state.
\<close>

record parent_engine =
  look_for_shortcuts_at :: "nat \<Rightarrow> tmap \<Rightarrow> (exn + tmap) option"
  ensure_shorter :: "twalker \<Rightarrow> tmap \<Rightarrow> (exn + tmap) option"
  cmove :: "nat \<Rightarrow> int \<Rightarrow> tmap \<Rightarrow> (exn + tmap \<times> nat) option"
  find_new_shortcuts :: "nat \<Rightarrow> int \<Rightarrow> nat \<Rightarrow> int \<Rightarrow> int \<Rightarrow> tmap \<Rightarrow> (exn + tmap) option"
  beats_exhaustive :: "twalker \<Rightarrow> twalker \<Rightarrow> tmap \<Rightarrow> (exn + tmap \<times> bool) option"
  assign_code :: "twalker \<Rightarrow> tmap \<Rightarrow> (exn + tmap \<times> int) option"

text \<open>
  \<^verbatim>\<open>void ufindc(tcell*& c) { twalker cw = c; ufind(cw); c = cw.at; }\<close>
\<close>

definition ufindc :: "tmap \<Rightarrow> nat \<Rightarrow> (tmap \<times> nat) option" where
  "ufindc s c' = map_option (\<lambda>(s', cw). (s', at cw)) (ufind s \<lparr>at = c', spin = 0\<rparr>)"

text \<open>
  \<^verbatim>\<open>void calc_distances(tcell *c) { if(c->dist != MYSTERY) return; fix_distances(c); }\<close>
  and \<^verbatim>\<open>void look_for_shortcuts(tcell *c) { if(c->dist > 0) for(...) look_for_shortcuts(c, ...); }\<close>
\<close>

definition calc_distances :: "engine \<Rightarrow> nat \<Rightarrow> tmap \<Rightarrow> (exn + tmap) option" where
  "calc_distances E c' s = (if dist (tiles s c') \<noteq> MYSTERY then Some (Inr s) else fix_distances E c' s)"

definition look_for_shortcuts :: "parent_engine \<Rightarrow> nat \<Rightarrow> tmap \<Rightarrow> (exn + tmap) option" where
  "look_for_shortcuts P c' s =
     (if dist (tiles s c') > 0 then look_for_shortcuts_at P c' s else Some (Inr s))"

definition set_is_solid :: "nat \<Rightarrow> tmap \<Rightarrow> tmap" where
  "set_is_solid c' s = s\<lparr>tiles := (tiles s)(c' := (tiles s c')\<lparr>is_solid := True\<rparr>)\<rparr>"

text \<open>
  \<^verbatim>\<open>void be_solid(tcell *c) {
    if(c->is_solid) return;
    if(tcellcount >= max_tcellcount) throw rulegen_surrender("max_tcellcount exceeded");
    ufindc(c); calc_distances(c); ufindc(c); look_for_shortcuts(c); ufindc(c);
    if(c->dist == MYSTERY) throw rulegen_failure("set solid but no dist");
    c->is_solid = true;
    if(c->dist > 0 && !(flags & w_near_solid) && c->any_nearer >= 0 && c->any_nearer < c->type) {
      tcell *c1 = c->move(c->any_nearer);
      if(c1) be_solid(c1); } }\<close>
  The pointer \<^verbatim>\<open>c\<close> is a copy: the caller keeps its own.
\<close>

partial_function (option) be_solid ::
  "engine \<Rightarrow> parent_engine \<Rightarrow> flagtype \<Rightarrow> int \<Rightarrow> nat \<Rightarrow> tmap \<Rightarrow> (exn + tmap) option" where
  "be_solid E P flags max_tcellcount c0 s0 =
     (if is_solid (tiles s0 c0) then Some (Inr s0)
      else if tcellcount s0 \<ge> max_tcellcount
        then Some (Inl (rulegen_surrender ''max_tcellcount exceeded''))
      else
        (case ufindc s0 c0 of
           None \<Rightarrow> None
         | Some (s1, c1) \<Rightarrow>
        (case calc_distances E c1 s1 of
           None \<Rightarrow> None
         | Some (Inl e) \<Rightarrow> Some (Inl e)
         | Some (Inr s2) \<Rightarrow>
        (case ufindc s2 c1 of
           None \<Rightarrow> None
         | Some (s3, c3) \<Rightarrow>
        (case look_for_shortcuts P c3 s3 of
           None \<Rightarrow> None
         | Some (Inl e) \<Rightarrow> Some (Inl e)
         | Some (Inr s4) \<Rightarrow>
        (case ufindc s4 c3 of
           None \<Rightarrow> None
         | Some (s5, c5) \<Rightarrow>
             if dist (tiles s5 c5) = MYSTERY
               then Some (Inl (rulegen_failure ''set solid but no dist''))
             else
               (let s6 = set_is_solid c5 s5 in
                if dist (tiles s6 c5) > 0 \<and> \<not> flag_set flags w_near_solid
                   \<and> any_nearer (tiles s6 c5) \<ge> 0
                   \<and> any_nearer (tiles s6 c5) < tc_type (tiles s6 c5)
                then
                  (case c_move (tiles s6 c5) (any_nearer (tiles s6 c5)) of
                     None \<Rightarrow> Some (Inr s6)
                   | Some w \<Rightarrow> be_solid E P flags max_tcellcount (at w) s6)
                else Some (Inr s6))))))))"

declare be_solid.simps [code]

text \<open>
  The loop of \<^verbatim>\<open>get_parent_dir\<close> that collects the nearer neighbours, over the
  directions still to visit:
  \<^verbatim>\<open>ensure_shorter(cw+i); tcell *c1 = c->cmove(i); be_solid(c1);
  if(c1->dist < d) nearer.push_back(i);
  ufind(cw); if(d != cw.at->dist || oc != cw.at) return get_parent_dir(cw);\<close>
  It ends with the list, or asks for the call to start again with the walker
  \<^verbatim>\<open>cw\<close> as \<^verbatim>\<open>ufind\<close> left it.
\<close>

datatype collected = Restart tmap twalker | Nearer tmap twalker "int list"

fun collect_nearer ::
  "engine \<Rightarrow> parent_engine \<Rightarrow> flagtype \<Rightarrow> int \<Rightarrow> int \<Rightarrow> nat \<Rightarrow> int list \<Rightarrow> twalker \<Rightarrow> int list
     \<Rightarrow> tmap \<Rightarrow> (exn + collected) option" where
  "collect_nearer E P flags max_tcellcount d oc [] cw nearer s = Some (Inr (Nearer s cw nearer))"
| "collect_nearer E P flags max_tcellcount d oc (i # rest) cw nearer s =
     (case ensure_shorter P (wplus s cw i) s of
        None \<Rightarrow> None
      | Some (Inl e) \<Rightarrow> Some (Inl e)
      | Some (Inr s1) \<Rightarrow>
     (case cmove P (at cw) i s1 of
        None \<Rightarrow> None
      | Some (Inl e) \<Rightarrow> Some (Inl e)
      | Some (Inr (s2, c1)) \<Rightarrow>
     (case be_solid E P flags max_tcellcount c1 s2 of
        None \<Rightarrow> None
      | Some (Inl e) \<Rightarrow> Some (Inl e)
      | Some (Inr s3) \<Rightarrow>
          (let nearer' = (if dist (tiles s3 c1) < d then nearer @ [i] else nearer) in
           case ufind s3 cw of
             None \<Rightarrow> None
           | Some (s4, cw') \<Rightarrow>
               if d \<noteq> dist (tiles s4 (at cw')) \<or> oc \<noteq> at cw' then Some (Inr (Restart s4 cw'))
               else collect_nearer E P flags max_tcellcount d oc rest cw' nearer' s4))))"

text \<open>
  The end of \<^verbatim>\<open>get_parent_dir\<close>:
  \<^verbatim>\<open>c->parent_dir = bestd;
  if(c->old_parent_dir != MYSTERY && c->old_parent_dir != bestd && c == oc) {
    c->any_nearer = c->old_parent_dir;
    find_new_shortcuts(c, c->dist, c, bestd, 0); }
  parent_updates++;
  return twalker(c, bestd);\<close>
  Modelled from the spec: the constructor \<^verbatim>\<open>twalker(c, d)\<close>, taken as the pair of the tile
  and the direction; it is declared outside the sources.
\<close>

definition set_parent_dir :: "nat \<Rightarrow> int \<Rightarrow> tmap \<Rightarrow> tmap" where
  "set_parent_dir c' d s = s\<lparr>tiles := (tiles s)(c' := (tiles s c')\<lparr>parent_dir := d\<rparr>)\<rparr>"

definition set_any_nearer :: "nat \<Rightarrow> int \<Rightarrow> tmap \<Rightarrow> tmap" where
  "set_any_nearer c' d s = s\<lparr>tiles := (tiles s)(c' := (tiles s c')\<lparr>any_nearer := d\<rparr>)\<rparr>"

definition count_parent_update :: "tmap \<Rightarrow> tmap" where
  "count_parent_update s = s\<lparr>parent_updates := parent_updates s + 1\<rparr>"

definition store_parent_dir ::
  "parent_engine \<Rightarrow> nat \<Rightarrow> twalker \<Rightarrow> int \<Rightarrow> tmap \<Rightarrow> (exn + tmap \<times> twalker \<times> twalker) option" where
  "store_parent_dir P oc cw bestd s =
     (let c' = at cw; s1 = set_parent_dir c' bestd s in
      if old_parent_dir (tiles s1 c') \<noteq> MYSTERY \<and> old_parent_dir (tiles s1 c') \<noteq> bestd \<and> c' = oc
      then
        (let s2 = set_any_nearer c' (old_parent_dir (tiles s1 c')) s1 in
         case find_new_shortcuts P c' (dist (tiles s2 c')) c' bestd 0 s2 of
           None \<Rightarrow> None
         | Some (Inl e) \<Rightarrow> Some (Inl e)
         | Some (Inr s3) \<Rightarrow> Some (Inr (count_parent_update s3, cw, \<lparr>at = c', spin = bestd\<rparr>)))
      else Some (Inr (count_parent_update s1, cw, \<lparr>at = c', spin = bestd\<rparr>)))"

text \<open>
  The part of \<^verbatim>\<open>get_parent_dir\<close> between the collection of \<^verbatim>\<open>nearer\<close> and the
  assignment of \<^verbatim>\<open>parent_dir\<close>, for the tile \<open>c'\<close>:
  \<^verbatim>\<open>bool failed = false;
  if(flags & w_parent_always) {failed = true; goto resolve; }
  for(auto ne: nearer) if(beats(ne, bestd)) bestd = ne;
  for(auto ne: nearer) if(ne != bestd && beats(ne, bestd)) failed = true;
  if(failed) {
    if(flags & w_parent_never) { debuglist = { c }; throw rulegen_failure("still confused"); }
    resolve:
    hard_parents++;
    bestd = nearer[0];
    for(auto ne1: nearer) if(ne1 != bestd && beats_exhaustive(twalker(c, ne1), twalker(c, bestd)))
      bestd = ne1; }
  if(bestd == -1) { debuglist = { c }; throw rulegen_failure("should not happen"); }\<close>
  The counter \<^verbatim>\<open>hard_parents\<close> is incremented in the state before the exhaustive pass,
  whose calls may increment it again. Reading \<^verbatim>\<open>nearer[0]\<close> of an empty vector is
  undefined in C++; the model leaves the function there with \<open>None\<close>, as it does when
  \<^verbatim>\<open>beats_exhaustive\<close> does not return.
\<close>

definition resolve_parent ::
  "parent_engine \<Rightarrow> nat \<Rightarrow> int list \<Rightarrow> tmap \<Rightarrow> (exn + tmap \<times> int) option" where
  "resolve_parent P c' nearer s =
     (case nearer of
        [] \<Rightarrow> None
      | n0 # rest \<Rightarrow>
          (case exhaustive_scan
                  (\<lambda>s' i j. beats_exhaustive P \<lparr>at = c', spin = i\<rparr> \<lparr>at = c', spin = j\<rparr> s')
                  (s\<lparr>hard_parents := hard_parents s + 1\<rparr>) nearer n0 of
             None \<Rightarrow> None
           | Some (Inl e) \<Rightarrow> Some (Inl e)
           | Some (Inr (s', bestd)) \<Rightarrow>
               if bestd = -1 then Some (Inl (rulegen_failure ''should not happen''))
               else Some (Inr (s', bestd))))"

definition choose_parent ::
  "parent_engine \<Rightarrow> flagtype \<Rightarrow> int \<Rightarrow> nat \<Rightarrow> int list \<Rightarrow> tmap \<Rightarrow> (exn + tmap \<times> int) option" where
  "choose_parent P flags k c' nearer s =
     (if flag_set flags w_parent_always then resolve_parent P c' nearer s
      else
        let bestd = cheap_scan k nearer (-1);
            failed = scan_failed k nearer bestd False
        in if failed then
             (if flag_set flags w_parent_never then Some (Inl (rulegen_failure ''still confused''))
              else resolve_parent P c' nearer s)
           else if bestd = -1 then Some (Inl (rulegen_failure ''should not happen''))
           else Some (Inr (s, bestd)))"

text \<open>
  \<^verbatim>\<open>get_parent_dir(twalker& cw)\<close>. The result carries the state, the walker \<^verbatim>\<open>cw\<close> as
  the call leaves it (it is a reference) and the walker returned. The body starts with
  \<^verbatim>\<open>if(c->parent_dir != MYSTERY) return twalker(c, c->parent_dir); int bestd = -1;
  be_solid(c); auto oc = c; if(c->dist > 0) { ... }\<close>; inside the braces are the loop
  above and the choice among the nearer neighbours.
\<close>

partial_function (option) get_parent_dir ::
  "engine \<Rightarrow> parent_engine \<Rightarrow> shape list \<Rightarrow> flagtype \<Rightarrow> int \<Rightarrow> twalker \<Rightarrow> tmap
     \<Rightarrow> (exn + tmap \<times> twalker \<times> twalker) option" where
  "get_parent_dir E P shs flags max_tcellcount cw s =
     (if parent_dir (tiles s (at cw)) \<noteq> MYSTERY
        then Some (Inr (s, cw, \<lparr>at = at cw, spin = parent_dir (tiles s (at cw))\<rparr>))
      else
        (case be_solid E P flags max_tcellcount (at cw) s of
           None \<Rightarrow> None
         | Some (Inl e) \<Rightarrow> Some (Inl e)
         | Some (Inr s1) \<Rightarrow>
             if dist (tiles s1 (at cw)) > 0 then
               (case shape_of shs (tc_id (tiles s1 (at cw))) of
                  None \<Rightarrow> None
                | Some sh \<Rightarrow>
                    (case collect_nearer E P flags max_tcellcount (dist (tiles s1 (at cw))) (at cw)
                            (map int [0..<nat (sh_size sh)]) cw [] s1 of
                       None \<Rightarrow> None
                     | Some (Inl e) \<Rightarrow> Some (Inl e)
                     | Some (Inr (Restart s2 cw2)) \<Rightarrow>
                         get_parent_dir E P shs flags max_tcellcount cw2 s2
                     | Some (Inr (Nearer s2 cw2 nearer)) \<Rightarrow>
                         (case choose_parent P flags (cycle_length sh) (at cw2) nearer s2 of
                            None \<Rightarrow> None
                          | Some (Inl e) \<Rightarrow> Some (Inl e)
                          | Some (Inr (s3, bestd)) \<Rightarrow>
                              store_parent_dir P (at cw) cw2 bestd s3)))
             else store_parent_dir P (at cw) cw (-1) s1))"

declare get_parent_dir.simps [code]

text \<open>
  \<^verbatim>\<open>get_code(twalker& cw)\<close>, up to the computation of the code:
  \<^verbatim>\<open>tcell *c = cw.at;
  if(c->code != MYSTERY && c->parent_dir != MYSTERY) {
    int bestd = c->parent_dir; if(bestd == -1) bestd = 0; return {bestd, c->code}; }
  be_solid(c);
  twalker cd = c->dist == 0 ? twalker(c, 0) : get_parent_dir(cw);
  if(cd.at != c) ufind(cw);\<close>
  and then, with the code interned as state \<^verbatim>\<open>id\<close>, \<^verbatim>\<open>return {cd.spin, id};\<close>.
  The result carries the state, the walker \<^verbatim>\<open>cw\<close> and the pair returned.
\<close>

definition get_code ::
  "engine \<Rightarrow> parent_engine \<Rightarrow> shape list \<Rightarrow> flagtype \<Rightarrow> int \<Rightarrow> twalker \<Rightarrow> tmap
     \<Rightarrow> (exn + tmap \<times> twalker \<times> int \<times> int) option" where
  "get_code E P shs flags max_tcellcount cw s =
     (let c' = at cw in
      if tc_code (tiles s c') \<noteq> MYSTERY \<and> parent_dir (tiles s c') \<noteq> MYSTERY then
        (let bestd = parent_dir (tiles s c') in
         Some (Inr (s, cw, (if bestd = -1 then 0 else bestd), tc_code (tiles s c'))))
      else
        (case be_solid E P flags max_tcellcount c' s of
           None \<Rightarrow> None
         | Some (Inl e) \<Rightarrow> Some (Inl e)
         | Some (Inr s1) \<Rightarrow>
             (case (if dist (tiles s1 c') = 0 then Some (Inr (s1, cw, \<lparr>at = c', spin = 0\<rparr>))
                    else get_parent_dir E P shs flags max_tcellcount cw s1) of
                None \<Rightarrow> None
              | Some (Inl e) \<Rightarrow> Some (Inl e)
              | Some (Inr (s2, cw2, cd)) \<Rightarrow>
                  (case (if at cd \<noteq> c' then ufind s2 cw2 else Some (s2, cw2)) of
                     None \<Rightarrow> None
                   | Some (s3, cw3) \<Rightarrow>
                       (case assign_code P cd s3 of
                          None \<Rightarrow> None
                        | Some (Inl e) \<Rightarrow> Some (Inl e)
                        | Some (Inr (s4, i)) \<Rightarrow> Some (Inr (s4, cw3, spin cd, i)))))))"

text \<open>
  For the examples: the arena above with tile 0 made a root, and a \<open>parent_engine\<close> none
  of whose entries returns.
\<close>

definition example_root :: tmap where
  "example_root = example_arena\<lparr>tiles := (tiles example_arena)(0 := (tiles example_arena 0)\<lparr>dist := 0\<rparr>)\<rparr>"

definition idle_parent_engine :: parent_engine where
  "idle_parent_engine =
     \<lparr>look_for_shortcuts_at = (\<lambda>c s. None), ensure_shorter = (\<lambda>w s. None),
      cmove = (\<lambda>c d s. None), find_new_shortcuts = (\<lambda>c d a n e s. None),
      beats_exhaustive = (\<lambda>w1 w2 s. None), assign_code = (\<lambda>w s. None)\<rparr>"

definition example_parent_engine :: parent_engine where
  "example_parent_engine =
     \<lparr>look_for_shortcuts_at = (\<lambda>c s. None), ensure_shorter = (\<lambda>w s. None),
      cmove = (\<lambda>c d s. None), find_new_shortcuts = (\<lambda>c d a n e s. None),
      beats_exhaustive = (\<lambda>w1 w2 s. None), assign_code = (\<lambda>w s. Some (Inr (s, 0)))\<rparr>"




subsection \<open>The consumer map: \<^verbatim>\<open>hrmap_rulegen::create_step\<close>\<close>

text \<open>
  The consumer works on heptagons, which it allocates one by one; a heptagon lives in a
  store at an address, a natural number, and \<open>hcount\<close> is the next free address. The
  struct \<^verbatim>\<open>heptagon\<close> is declared outside the sources; of its fields the consumer uses the
  number of edges, \<^verbatim>\<open>c7\<close> (here only whether it is set), \<^verbatim>\<open>distance\<close>, \<^verbatim>\<open>fieldval\<close> (the
  tree state), \<^verbatim>\<open>zebraval\<close> (the shape), \<^verbatim>\<open>s\<close> and the connection table \<^verbatim>\<open>c\<close>, the field
  \<open>h_move\<close>. The numeric fields are integers. A \<^verbatim>\<open>heptspin\<close> is the walker template at
  heptagons, \<^verbatim>\<open>walker<heptagon>\<close>; every edge is connected unmirrored here too.
\<close>

type_synonym heptspin = twalker

datatype hstate = hsOrigin | hsA

record heptagon =
  h_type :: int
  has_c7 :: bool
  distance :: int
  fieldval :: int
  zebraval :: int
  h_s :: hstate
  h_move :: "int \<Rightarrow> heptspin option"


















section \<open>Theorems\<close>

subsection \<open>The driver loop\<close>

lemma generate_rules_loop_retry_at_cap:
  "fst (generate_rules_loop body ticks st rt mr tc w) = Inl e \<Longrightarrow> is_rulegen_retry e
     \<Longrightarrow> fst (snd (generate_rules_loop body ticks st rt mr tc w)) \<ge> mr"
proof (induction body ticks st rt mr tc w rule: generate_rules_loop.induct)
  case (1 body ticks st rt mr tc w)
  show ?case
  proof (cases "check_timeout ticks st rt w")
    case (Inl e')
    with "1.prems" show ?thesis
      by (subst (asm) generate_rules_loop.simps)
         (auto simp: check_timeout_def split: if_splits)
  next
    case (Inr u)
    obtain r w' where b: "body (tc + 1) w = (r, w')" by (cases "body (tc + 1) w")
    show ?thesis
    proof (cases r)
      case (Inr u')
      with "1.prems" \<open>check_timeout ticks st rt w = Inr u\<close> b show ?thesis
        by (subst (asm) generate_rules_loop.simps, subst generate_rules_loop.simps) simp
    next
      case (Inl e')
      show ?thesis
      proof (cases "is_rulegen_retry e' \<and> \<not> tc + 1 \<ge> mr")
        case True
        then have eq: "generate_rules_loop body ticks st rt mr tc w
                     = generate_rules_loop body ticks st rt mr (tc + 1) w'"
          using \<open>check_timeout ticks st rt w = Inr u\<close> b Inl
          by (subst generate_rules_loop.simps) simp
        have "mr \<le> fst (snd (generate_rules_loop body ticks st rt mr (tc + 1) w'))"
          using "1.IH" [OF \<open>check_timeout ticks st rt w = Inr u\<close> b [symmetric] Inl]
                True "1.prems" eq by simp
        then show ?thesis using eq by simp
      next
        case False
        with "1.prems" \<open>check_timeout ticks st rt w = Inr u\<close> b Inl show ?thesis
          by (subst (asm) generate_rules_loop.simps, subst generate_rules_loop.simps)
             (auto split: if_splits)
      qed
    qed
  qed
qed


text \<open>
  Claim C7 (as amended). Every round of the loop of \<^verbatim>\<open>generate_rules\<close> starts with
  \<^verbatim>\<open>check_timeout\<close>; when the time limit has expired, the Surrender it throws leaves the
  loop, with \<^verbatim>\<open>try_count\<close> and the world as they are and without running the iteration.
  Otherwise the iteration runs and increments \<^verbatim>\<open>try_count\<close>. When it ends normally the
  loop ends. When it throws a Retry (\<^verbatim>\<open>rulegen_retry\<close> or its subclass) with
  \<^verbatim>\<open>try_count\<close> below \<^verbatim>\<open>max_retries\<close>, the Retry is caught and the next round starts from
  the world the iteration left: the iteration runs again unless the time limit has
  expired in between, in which case the loop is left with the timeout Surrender. A Retry
  with \<^verbatim>\<open>try_count >= max_retries\<close> leaves the loop; so does every exception that is not a
  Retry, in particular every Surrender. Whenever a Retry leaves the loop, \<^verbatim>\<open>try_count\<close> has
  reached \<^verbatim>\<open>max_retries\<close>. \<^verbatim>\<open>generate_rules\<close> enters the loop with \<^verbatim>\<open>try_count = 0\<close> and
  the clock read at its start; before that, a failed conversion of the tessellation is
  the Surrender "conversion failure", and an exception of the preparation leaves the
  function as it is.
\<close>

theorem generate_rules_loop_retry_surrender:
  "(\<forall>e. check_timeout ticks st rt w = Inl e \<longrightarrow>
        e = rulegen_surrender ''timeout''
      \<and> generate_rules_loop body ticks st rt mr tc w = (Inl e, tc, w))
   \<and> (check_timeout ticks st rt w = Inr () \<longrightarrow>
        (\<forall>w'. body (tc + 1) w = (Inr (), w') \<longrightarrow>
            generate_rules_loop body ticks st rt mr tc w = (Inr (), tc + 1, w'))
      \<and> (\<forall>e w'. body (tc + 1) w = (Inl e, w') \<longrightarrow>
            (is_rulegen_retry e \<and> tc + 1 < mr \<longrightarrow>
                generate_rules_loop body ticks st rt mr tc w
                  = generate_rules_loop body ticks st rt mr (tc + 1) w'
              \<and> (\<forall>e2. check_timeout ticks st rt w' = Inl e2 \<longrightarrow>
                    generate_rules_loop body ticks st rt mr tc w = (Inl e2, tc + 1, w'))
              \<and> (\<forall>w''. check_timeout ticks st rt w' = Inr ()
                      \<and> body (tc + 2) w' = (Inr (), w'') \<longrightarrow>
                    generate_rules_loop body ticks st rt mr tc w = (Inr (), tc + 2, w'')))
          \<and> (is_rulegen_retry e \<and> mr \<le> tc + 1 \<longrightarrow>
                generate_rules_loop body ticks st rt mr tc w = (Inl e, tc + 1, w'))
          \<and> (\<not> is_rulegen_retry e \<longrightarrow>
                generate_rules_loop body ticks st rt mr tc w = (Inl e, tc + 1, w'))
          \<and> (is_rulegen_surrender e \<longrightarrow>
                generate_rules_loop body ticks st rt mr tc w = (Inl e, tc + 1, w'))))
   \<and> (\<forall>e'. fst (generate_rules_loop body ticks st rt mr tc w) = Inl e' \<and> is_rulegen_retry e'
          \<longrightarrow> mr \<le> fst (snd (generate_rules_loop body ticks st rt mr tc w)))
   \<and> (\<forall>w1 w2. (if arb_in (delete_tmap w) then (Inr (), delete_tmap w)
                 else convert (delete_tmap w)) = (Inr (), w1)
          \<and> seed w1 = (Inr (), w2) \<longrightarrow>
        generate_rules delete_tmap arb_in convert seed start body ticks rt mr tc w
          = generate_rules_loop body ticks (ticks w) rt mr 0 (start w2))
   \<and> (\<forall>e w1. \<not> arb_in (delete_tmap w) \<and> convert (delete_tmap w) = (Inl e, w1) \<longrightarrow>
        generate_rules delete_tmap arb_in convert seed start body ticks rt mr tc w
          = (Inl (rulegen_surrender ''conversion failure''), tc, w1))
   \<and> (\<forall>e w1 w2. (if arb_in (delete_tmap w) then (Inr (), delete_tmap w)
                 else convert (delete_tmap w)) = (Inr (), w1)
          \<and> seed w1 = (Inl e, w2) \<longrightarrow>
        generate_rules delete_tmap arb_in convert seed start body ticks rt mr tc w
          = (Inl e, tc, w2))"
proof -
  let ?loop = "generate_rules_loop body ticks st rt mr"
  have surr: "is_rulegen_surrender e \<Longrightarrow> \<not> is_rulegen_retry e" for e
    by (cases e) simp_all
  have T: "e = rulegen_surrender ''timeout'' \<and> ?loop tc w = (Inl e, tc, w)"
    if "check_timeout ticks st rt w = Inl e" for e
  proof -
    from that have "e = rulegen_surrender ''timeout''"
      by (simp add: check_timeout_def split: if_splits)
    moreover have "?loop tc w = (Inl e, tc, w)"
      using that by (subst generate_rules_loop.simps) simp
    ultimately show ?thesis by simp
  qed
  have T2: "?loop tc' w' = (Inl e, tc', w')"
    if "check_timeout ticks st rt w' = Inl e" for e tc' w'
    using that by (subst generate_rules_loop.simps) simp
  have N: "generate_rules_loop body ticks st rt mr tc' v = (Inr (), tc' + 1, v')"
    if "check_timeout ticks st rt v = Inr ()" "body (tc' + 1) v = (Inr (), v')" for tc' v v'
    using that by (subst generate_rules_loop.simps) simp
  have R: "?loop tc w = ?loop (tc + 1) w'"
    if "check_timeout ticks st rt w = Inr ()" "body (tc + 1) w = (Inl e, w')"
       "is_rulegen_retry e" "tc + 1 < mr" for e w'
    using that by (subst generate_rules_loop.simps) simp
  have X: "?loop tc w = (Inl e, tc + 1, w')"
    if "check_timeout ticks st rt w = Inr ()" "body (tc + 1) w = (Inl e, w')"
       "\<not> is_rulegen_retry e \<or> mr \<le> tc + 1" for e w'
    using that by (subst generate_rules_loop.simps) auto
  have R2: "?loop tc w = (Inr (), tc + 2, w'')"
    if "check_timeout ticks st rt w = Inr ()" "body (tc + 1) w = (Inl e, w')"
       "is_rulegen_retry e" "tc + 1 < mr" "check_timeout ticks st rt w' = Inr ()"
       "body (tc + 2) w' = (Inr (), w'')" for e w' w''
  proof -
    have e: "tc + 1 + 1 = tc + 2" by simp
    have "generate_rules_loop body ticks st rt mr (tc + 1) w' = (Inr (), tc + 1 + 1, w'')"
      using that(5,6) by (intro N) (simp_all add: e)
    then show ?thesis
      using R [OF that(1-4)] by (simp add: e)
  qed
  have G: "generate_rules delete_tmap arb_in convert seed start body ticks rt mr tc w
          = generate_rules_loop body ticks (ticks w) rt mr 0 (start w2)"
    if "(if arb_in (delete_tmap w) then (Inr (), delete_tmap w)
         else convert (delete_tmap w)) = (Inr (), w1)" "seed w1 = (Inr (), w2)" for w1 w2
    using that by (simp add: generate_rules_def Let_def)
  have C: "\<forall>e'. fst (?loop tc w) = Inl e' \<and> is_rulegen_retry e' \<longrightarrow> mr \<le> fst (snd (?loop tc w))"
    using generate_rules_loop_retry_at_cap [of body ticks st rt mr tc w] by blast
  have P1: "\<forall>e. check_timeout ticks st rt w = Inl e \<longrightarrow>
        e = rulegen_surrender ''timeout'' \<and> ?loop tc w = (Inl e, tc, w)"
    using T by blast
  have P2: "check_timeout ticks st rt w = Inr () \<longrightarrow>
        (\<forall>w'. body (tc + 1) w = (Inr (), w') \<longrightarrow> ?loop tc w = (Inr (), tc + 1, w'))
      \<and> (\<forall>e w'. body (tc + 1) w = (Inl e, w') \<longrightarrow>
            (is_rulegen_retry e \<and> tc + 1 < mr \<longrightarrow>
                ?loop tc w = ?loop (tc + 1) w'
              \<and> (\<forall>e2. check_timeout ticks st rt w' = Inl e2 \<longrightarrow>
                    ?loop tc w = (Inl e2, tc + 1, w'))
              \<and> (\<forall>w''. check_timeout ticks st rt w' = Inr ()
                      \<and> body (tc + 2) w' = (Inr (), w'') \<longrightarrow>
                    ?loop tc w = (Inr (), tc + 2, w'')))
          \<and> (is_rulegen_retry e \<and> mr \<le> tc + 1 \<longrightarrow> ?loop tc w = (Inl e, tc + 1, w'))
          \<and> (\<not> is_rulegen_retry e \<longrightarrow> ?loop tc w = (Inl e, tc + 1, w'))
          \<and> (is_rulegen_surrender e \<longrightarrow> ?loop tc w = (Inl e, tc + 1, w')))"
  proof (intro impI conjI allI)
    fix w' assume "check_timeout ticks st rt w = Inr ()" "body (tc + 1) w = (Inr (), w')"
    then show "?loop tc w = (Inr (), tc + 1, w')" by (rule N)
  next
    fix e w' assume a: "check_timeout ticks st rt w = Inr ()" "body (tc + 1) w = (Inl e, w')"
      "is_rulegen_retry e \<and> tc + 1 < mr"
    then show "?loop tc w = ?loop (tc + 1) w'" using R by blast
  next
    fix e w' e2 assume a: "check_timeout ticks st rt w = Inr ()" "body (tc + 1) w = (Inl e, w')"
      "is_rulegen_retry e \<and> tc + 1 < mr" "check_timeout ticks st rt w' = Inl e2"
    then have "?loop tc w = ?loop (tc + 1) w'" using R by blast
    then show "?loop tc w = (Inl e2, tc + 1, w')" using T2 [OF a(4)] by simp
  next
    fix e w' w'' assume a: "check_timeout ticks st rt w = Inr ()" "body (tc + 1) w = (Inl e, w')"
      "is_rulegen_retry e \<and> tc + 1 < mr"
      "check_timeout ticks st rt w' = Inr () \<and> body (tc + 2) w' = (Inr (), w'')"
    then show "?loop tc w = (Inr (), tc + 2, w'')" using R2 by blast
  next
    fix e w' assume a: "check_timeout ticks st rt w = Inr ()" "body (tc + 1) w = (Inl e, w')"
      "is_rulegen_retry e \<and> mr \<le> tc + 1"
    then show "?loop tc w = (Inl e, tc + 1, w')" using X by blast
  next
    fix e w' assume a: "check_timeout ticks st rt w = Inr ()" "body (tc + 1) w = (Inl e, w')"
      "\<not> is_rulegen_retry e"
    then show "?loop tc w = (Inl e, tc + 1, w')" using X by blast
  next
    fix e w' assume a: "check_timeout ticks st rt w = Inr ()" "body (tc + 1) w = (Inl e, w')"
      "is_rulegen_surrender e"
    then show "?loop tc w = (Inl e, tc + 1, w')" using X surr by blast
  qed
  have P4: "\<forall>w1 w2. (if arb_in (delete_tmap w) then (Inr (), delete_tmap w)
                 else convert (delete_tmap w)) = (Inr (), w1)
          \<and> seed w1 = (Inr (), w2) \<longrightarrow>
        generate_rules delete_tmap arb_in convert seed start body ticks rt mr tc w
          = generate_rules_loop body ticks (ticks w) rt mr 0 (start w2)"
    using G by blast
  have P5: "\<forall>e w1. \<not> arb_in (delete_tmap w) \<and> convert (delete_tmap w) = (Inl e, w1) \<longrightarrow>
        generate_rules delete_tmap arb_in convert seed start body ticks rt mr tc w
          = (Inl (rulegen_surrender ''conversion failure''), tc, w1)"
    by (simp add: generate_rules_def Let_def)
  have P6: "\<forall>e w1 w2. (if arb_in (delete_tmap w) then (Inr (), delete_tmap w)
                 else convert (delete_tmap w)) = (Inr (), w1)
          \<and> seed w1 = (Inl e, w2) \<longrightarrow>
        generate_rules delete_tmap arb_in convert seed start body ticks rt mr tc w
          = (Inl e, tc, w2)"
    by (simp add: generate_rules_def Let_def)
  from P1 P2 C P4 P5 P6 show ?thesis by (intro conjI)
qed


theorem generate_rules_loop_retry_surrender_witness:
  "generate_rules_loop retry_once early_clock 0 60 999 0 0 = (Inr (), 2, 2)
   \<and> generate_rules_loop always_retry early_clock 0 60 999 998 5
        = (Inl (rulegen_retry ''mismatch error''), 999, 6)
   \<and> generate_rules_loop always_surrender early_clock 0 60 999 0 5
        = (Inl (rulegen_surrender ''max_tcellcount exceeded''), 1, 6)
   \<and> generate_rules_loop always_retry late_clock 0 60 999 3 7
        = (Inl (rulegen_surrender ''timeout''), 3, 7)
   \<and> generate_rules id (\<lambda>w. True) (\<lambda>w. (Inr (), w)) (\<lambda>w. (Inr (), w)) id
        retry_once early_clock 60 999 17 0 = (Inr (), 2, 2)"
proof -
  have ct: "check_timeout early_clock 0 60 w = Inr ()" for w
    by (simp add: check_timeout_def early_clock_def)
  have lt: "check_timeout late_clock 0 60 7 = Inl (rulegen_surrender ''timeout'')"
    by (simp add: check_timeout_def late_clock_def)
  have A: "generate_rules_loop retry_once early_clock 0 60 999 0 0 = (Inr (), 2, 2)"
    using generate_rules_loop_retry_surrender [where ticks = early_clock and st = 0 and rt = 60
        and w = "0::nat" and body = retry_once and tc = 0 and mr = 999,
        THEN conjunct2, THEN conjunct1, rule_format, OF ct, THEN conjunct2, rule_format,
        of "rulegen_retry ''mismatch error''" 1, THEN conjunct1, rule_format,
        THEN conjunct2, THEN conjunct2, rule_format, of 2]
    by (simp add: retry_once_def ct)
  have B: "generate_rules_loop always_retry early_clock 0 60 999 998 5
        = (Inl (rulegen_retry ''mismatch error''), 999, 6)"
    using generate_rules_loop_retry_surrender [where ticks = early_clock and st = 0 and rt = 60
        and w = "5::nat" and body = always_retry and tc = 998 and mr = 999,
        THEN conjunct2, THEN conjunct1, rule_format, OF ct, THEN conjunct2, rule_format,
        of "rulegen_retry ''mismatch error''" 6, THEN conjunct2, THEN conjunct1, rule_format]
    by (simp add: always_retry_def)
  have C: "generate_rules_loop always_surrender early_clock 0 60 999 0 5
        = (Inl (rulegen_surrender ''max_tcellcount exceeded''), 1, 6)"
    using generate_rules_loop_retry_surrender [where ticks = early_clock and st = 0 and rt = 60
        and w = "5::nat" and body = always_surrender and tc = 0 and mr = 999,
        THEN conjunct2, THEN conjunct1, rule_format, OF ct, THEN conjunct2, rule_format,
        of "rulegen_surrender ''max_tcellcount exceeded''" 6,
        THEN conjunct2, THEN conjunct2, THEN conjunct2, rule_format]
    by (simp add: always_surrender_def)
  have D: "generate_rules_loop always_retry late_clock 0 60 999 3 7
        = (Inl (rulegen_surrender ''timeout''), 3, 7)"
    using generate_rules_loop_retry_surrender [where ticks = late_clock and st = 0 and rt = 60
        and w = "7::nat" and body = always_retry and tc = 3 and mr = 999,
        THEN conjunct1, rule_format, OF lt]
    by simp
  have E: "generate_rules id (\<lambda>w. True) (\<lambda>w. (Inr (), w)) (\<lambda>w. (Inr (), w)) id
        retry_once early_clock 60 999 17 0
        = generate_rules_loop retry_once early_clock (early_clock 0) 60 999 0 (id 0)"
    using generate_rules_loop_retry_surrender [where ticks = early_clock and rt = 60
        and w = "0::nat" and body = retry_once and tc = 17 and mr = 999
        and delete_tmap = id and arb_in = "\<lambda>w. True" and convert = "\<lambda>w. (Inr (), w)"
        and seed = "\<lambda>w. (Inr (), w)" and start = id and st = 0,
        THEN conjunct2, THEN conjunct2, THEN conjunct2, THEN conjunct1, rule_format, of 0 0]
    by simp
  have E': "generate_rules id (\<lambda>w. True) (\<lambda>w. (Inr (), w)) (\<lambda>w. (Inr (), w)) id
        retry_once early_clock 60 999 17 0 = (Inr (), 2, 2)"
    using E A by (simp add: early_clock_def)
  from A B C D E' show ?thesis by (intro conjI)
qed

text \<open>
  The claim as written fails: the iteration throws a Retry with \<^verbatim>\<open>try_count = 1\<close>, far
  below \<^verbatim>\<open>max_retries = 999\<close>, and is not run again, because the time limit of 60 seconds
  has expired when the next round starts: the loop is left with the timeout Surrender
  after a single iteration (the world counts the iterations).
\<close>

theorem generate_rules_loop_timeout_counterexample:
  "generate_rules_loop always_retry late_clock 0 60 999 0 0
     = (Inl (rulegen_surrender ''timeout''), 1, 1)"
  by (subst generate_rules_loop.simps, subst generate_rules_loop.simps)
     (simp add: check_timeout_def late_clock_def always_retry_def)

subsection \<open>The priority among nearer neighbours\<close>





lemma cheap_scan_Nil: "cheap_scan k [] b = b"
  by (simp add: cheap_scan_def)




subsection \<open>Resolution of unknown rules in \<^verbatim>\<open>gen_rule\<close>\<close>

lemma and_one_odd: "(v AND 1 \<noteq> 0) \<longleftrightarrow> odd v" for v :: int
  by (simp add: and_one_eq mod_2_eq_odd)

lemma gen_rule_resolve_ok:
  assumes "i + length cids < length code"
      and "\<forall>j < length cids. cids ! j = DIR_UNKNOWN \<longrightarrow> 2 \<le> code ! (i + j + 1) \<and> code ! (i + j + 1) < 8"
  shows "\<exists>r. gen_rule_resolve code i cids = Some (Inr r) \<and> length r = length cids
           \<and> (\<forall>j < length cids. r ! j =
                 (if cids ! j = DIR_UNKNOWN
                  then (if odd (code ! (i + j + 1)) then DIR_RIGHT else DIR_LEFT)
                  else cids ! j))"
  using assms
proof (induction cids arbitrary: i)
  case Nil
  then show ?case by simp
next
  case (Cons c cs)
  have len: "Suc i + length cs < length code" using Cons.prems(1) by simp
  have rest: "\<forall>j < length cs. cs ! j = DIR_UNKNOWN
                \<longrightarrow> 2 \<le> code ! (Suc i + j + 1) \<and> code ! (Suc i + j + 1) < 8"
  proof (intro allI impI)
    fix j assume "j < length cs" "cs ! j = DIR_UNKNOWN"
    then show "2 \<le> code ! (Suc i + j + 1) \<and> code ! (Suc i + j + 1) < 8"
      using Cons.prems(2) [rule_format, of "Suc j"] by simp
  qed
  obtain r where r: "gen_rule_resolve code (Suc i) cs = Some (Inr r)" "length r = length cs"
      "\<forall>j < length cs. r ! j =
         (if cs ! j = DIR_UNKNOWN
          then (if odd (code ! (Suc i + j + 1)) then DIR_RIGHT else DIR_LEFT)
          else cs ! j)"
    using Cons.IH [OF len rest] by blast
  have hd_ok: "c = DIR_UNKNOWN \<Longrightarrow> 2 \<le> code ! (i + 1) \<and> code ! (i + 1) < 8"
    using Cons.prems(2) [rule_format, of 0] by simp
  let ?x = "if c = DIR_UNKNOWN then (if odd (code ! (i + 1)) then DIR_RIGHT else DIR_LEFT) else c"
  have res: "gen_rule_resolve code i (c # cs) = Some (Inr (?x # r))"
    using r(1) hd_ok Cons.prems(1) by (auto simp: Let_def and_one_odd)
  have nth: "\<forall>j < length (c # cs). (?x # r) ! j =
                 (if (c # cs) ! j = DIR_UNKNOWN
                  then (if odd (code ! (i + j + 1)) then DIR_RIGHT else DIR_LEFT)
                  else (c # cs) ! j)"
  proof (intro allI impI)
    fix j assume j: "j < length (c # cs)"
    show "(?x # r) ! j =
                 (if (c # cs) ! j = DIR_UNKNOWN
                  then (if odd (code ! (i + j + 1)) then DIR_RIGHT else DIR_LEFT)
                  else (c # cs) ! j)"
    proof (cases j)
      case 0
      then show ?thesis by simp
    next
      case (Suc j')
      then show ?thesis using r(3) [rule_format, of j'] j by simp
    qed
  qed
  show ?case using res nth r(2) by simp
qed

lemma gen_rule_resolve_retry:
  assumes "i + length cids < length code"
      and "\<exists>j < length cids. cids ! j = DIR_UNKNOWN \<and> (code ! (i + j + 1) < 2 \<or> code ! (i + j + 1) \<ge> 8)"
  shows "gen_rule_resolve code i cids = Some (Inl (rulegen_retry ''wrong code in gen_rule''))"
  using assms
proof (induction cids arbitrary: i)
  case Nil
  then show ?case by simp
next
  case (Cons c cs)
  from Cons.prems(2) obtain j where j: "j < length (c # cs)" "(c # cs) ! j = DIR_UNKNOWN"
      "code ! (i + j + 1) < 2 \<or> code ! (i + j + 1) \<ge> 8" by blast
  have len: "Suc i + length cs < length code" using Cons.prems(1) by simp
  show ?case
  proof (cases "c = DIR_UNKNOWN \<and> (code ! (i + 1) < 2 \<or> code ! (i + 1) \<ge> 8)")
    case True
    then show ?thesis using Cons.prems(1) by (auto simp: Let_def)
  next
    case False
    then obtain j' where j': "j = Suc j'" using j by (cases j) auto
    have "\<exists>j < length cs. cs ! j = DIR_UNKNOWN
            \<and> (code ! (Suc i + j + 1) < 2 \<or> code ! (Suc i + j + 1) \<ge> 8)"
      using j j' by auto
    from Cons.IH [OF len this] show ?thesis using False Cons.prems(1) by (auto simp: Let_def)
  qed
qed


lemma side_class_range:
  "(v \<in> {C_UNCLE, C_UNCLE + 1, C_EQUAL, C_EQUAL + 1, C_NEPHEW, C_NEPHEW + 1}) \<longleftrightarrow> (2 \<le> v \<and> v < 8)"
  unfolding C_UNCLE_def C_EQUAL_def C_NEPHEW_def by auto

text \<open>
  Claim C2 (as amended). In the second loop of \<^verbatim>\<open>gen_rule\<close>, when the code of the
  state is long enough for the reads \<^verbatim>\<open>code.second[i+1]\<close>: a retry is raised exactly
  when some position left \<^verbatim>\<open>DIR_UNKNOWN\<close> has a classification outside
  \<^verbatim>\<open>UNCLE\<close>, \<^verbatim>\<open>EQUAL\<close>, \<^verbatim>\<open>NEPHEW\<close>, each with either side bit (so \<^verbatim>\<open>PARENT\<close>
  is refused with either side bit); otherwise the loop ends normally, every position left
  \<^verbatim>\<open>DIR_UNKNOWN\<close> becomes \<^verbatim>\<open>DIR_RIGHT\<close> when the side bit of its classification is 1
  and \<^verbatim>\<open>DIR_LEFT\<close> when it is 0, and every other position keeps its rule.
\<close>

theorem gen_rule_resolves_unknown:
  assumes "length cids < length code"
  shows "(gen_rule_resolve code 0 cids = Some (Inl (rulegen_retry ''wrong code in gen_rule'')) \<longleftrightarrow>
            (\<exists>i < length cids. cids ! i = DIR_UNKNOWN \<and>
               code ! (i + 1) \<notin> {C_UNCLE, C_UNCLE + 1, C_EQUAL, C_EQUAL + 1, C_NEPHEW, C_NEPHEW + 1}))
       \<and> ((\<forall>i < length cids. cids ! i = DIR_UNKNOWN \<longrightarrow>
               code ! (i + 1) \<in> {C_UNCLE, C_UNCLE + 1, C_EQUAL, C_EQUAL + 1, C_NEPHEW, C_NEPHEW + 1}) \<longrightarrow>
            (\<exists>r. gen_rule_resolve code 0 cids = Some (Inr r) \<and> length r = length cids
               \<and> (\<forall>i < length cids. r ! i =
                     (if cids ! i = DIR_UNKNOWN
                      then (if odd (code ! (i + 1)) then DIR_RIGHT else DIR_LEFT)
                      else cids ! i))))"
proof -
  have len: "0 + length cids < length code" using assms by simp
  let ?bad = "\<exists>i < length cids. cids ! i = DIR_UNKNOWN \<and>
               code ! (i + 1) \<notin> {C_UNCLE, C_UNCLE + 1, C_EQUAL, C_EQUAL + 1, C_NEPHEW, C_NEPHEW + 1}"
  have bad: "gen_rule_resolve code 0 cids = Some (Inl (rulegen_retry ''wrong code in gen_rule''))"
    if ?bad
  proof -
    from that have "\<exists>j < length cids. cids ! j = DIR_UNKNOWN
                      \<and> (code ! (0 + j + 1) < 2 \<or> code ! (0 + j + 1) \<ge> 8)"
      unfolding side_class_range by (simp add: not_le not_less) 
    from gen_rule_resolve_retry [OF len this] show ?thesis .
  qed
  have good: "\<exists>r. gen_rule_resolve code 0 cids = Some (Inr r) \<and> length r = length cids
               \<and> (\<forall>i < length cids. r ! i =
                     (if cids ! i = DIR_UNKNOWN
                      then (if odd (code ! (i + 1)) then DIR_RIGHT else DIR_LEFT)
                      else cids ! i))"
    if "\<not> ?bad"
  proof -
    from that have "\<forall>j < length cids. cids ! j = DIR_UNKNOWN
                      \<longrightarrow> 2 \<le> code ! (0 + j + 1) \<and> code ! (0 + j + 1) < 8"
      unfolding side_class_range by simp
    from gen_rule_resolve_ok [OF len this] show ?thesis unfolding add_0 .
  qed
  show ?thesis using bad good by fastforce
qed

theorem gen_rule_resolves_unknown_witness:
  "gen_rule_resolve [C_CHILD, C_EQUAL + 1, C_CHILD, C_UNCLE] 0 [DIR_UNKNOWN, 7, DIR_UNKNOWN]
     \<noteq> Some (Inl (rulegen_retry ''wrong code in gen_rule''))
   \<and> (\<exists>r. gen_rule_resolve [C_CHILD, C_EQUAL + 1, C_CHILD, C_UNCLE] 0 [DIR_UNKNOWN, 7, DIR_UNKNOWN]
            = Some (Inr r)
          \<and> r ! 0 = DIR_RIGHT \<and> r ! 1 = 7 \<and> r ! 2 = DIR_LEFT)"
proof -
  have len: "length [DIR_UNKNOWN, 7, DIR_UNKNOWN] < length [C_CHILD, C_EQUAL + 1, C_CHILD, C_UNCLE]"
    by simp
  have ok: "\<forall>i < length [DIR_UNKNOWN, 7, DIR_UNKNOWN]. [DIR_UNKNOWN, 7, DIR_UNKNOWN] ! i = DIR_UNKNOWN \<longrightarrow>
              [C_CHILD, C_EQUAL + 1, C_CHILD, C_UNCLE] ! (i + 1)
                \<in> {C_UNCLE, C_UNCLE + 1, C_EQUAL, C_EQUAL + 1, C_NEPHEW, C_NEPHEW + 1}"
    by (auto simp: less_Suc_eq numeral_3_eq_3 DIR_UNKNOWN_def)
  from gen_rule_resolves_unknown [OF len] ok
  obtain r where r: "gen_rule_resolve [C_CHILD, C_EQUAL + 1, C_CHILD, C_UNCLE] 0 [DIR_UNKNOWN, 7, DIR_UNKNOWN]
            = Some (Inr r)"
     "\<forall>i < length [DIR_UNKNOWN, 7, DIR_UNKNOWN]. r ! i =
         (if [DIR_UNKNOWN, 7, DIR_UNKNOWN] ! i = DIR_UNKNOWN
          then (if odd ([C_CHILD, C_EQUAL + 1, C_CHILD, C_UNCLE] ! (i + 1)) then DIR_RIGHT else DIR_LEFT)
          else [DIR_UNKNOWN, 7, DIR_UNKNOWN] ! i)"
    by blast
  have "r ! 0 = DIR_RIGHT" using r(2) [rule_format, of 0] by (simp add: C_EQUAL_def)
  moreover have "r ! 1 = 7" using r(2) [rule_format, of 1] by (simp add: DIR_UNKNOWN_def)
  moreover have "r ! 2 = DIR_LEFT" using r(2) [rule_format, of 2] by (simp add: C_UNCLE_def)
  ultimately show ?thesis using r(1) by simp
qed

text \<open>
  The claim as written fails: a position left \<^verbatim>\<open>DIR_UNKNOWN\<close> whose classification is
  \<^verbatim>\<open>PARENT\<close>, with side bit 0 or 1, is not resolved; the retry is raised.
\<close>

theorem gen_rule_parent_class_counterexample:
  "gen_rule_resolve [C_CHILD, C_PARENT] 0 [DIR_UNKNOWN]
     = Some (Inl (rulegen_retry ''wrong code in gen_rule''))
   \<and> gen_rule_resolve [C_CHILD, C_PARENT + 1] 0 [DIR_UNKNOWN]
     = Some (Inl (rulegen_retry ''wrong code in gen_rule''))"
  by (simp add: C_PARENT_def)

subsection \<open>Classification by relative distance in \<^verbatim>\<open>id_at_spin\<close>\<close>

text \<open>
  Claim C1. The claim says that with the flag \<^verbatim>\<open>w_no_relative_distance\<close> not set an
  entry that is not a child, at distance 3 with its neighbour at distance 2 (the distance
  delta is +1) and the neighbour on the left, is classified \<^verbatim>\<open>NEPHEW\<close>. The code tests
  the flag the other way round, \<^verbatim>\<open>if(!(flags & w_no_relative_distance)) x = C_EQUAL;\<close>,
  and classifies the entry \<^verbatim>\<open>EQUAL\<close>.
\<close>

theorem id_at_spin_default_flags_nephew:
  "id_at_spin 0 [-1, 0]
     [\<lparr>ev_dist = 0, ev_own_parent = False, ev_dist_fixed = 0, ev_peek_dist = 1, ev_side = 0\<rparr>,
      \<lparr>ev_dist = 3, ev_own_parent = False, ev_dist_fixed = 3, ev_peek_dist = 2, ev_side = -1\<rparr>]
   = Some (Inr [C_CHILD, C_EQUAL])
   \<and> C_EQUAL \<noteq> C_NEPHEW"
  by (simp add: id_at_spin_def classify_entry_def classify_relative_def flag_set_def
        C_CHILD_def C_EQUAL_def C_NEPHEW_def)

text \<open>
  With the flag not set every such entry is \<^verbatim>\<open>EQUAL\<close>, with the side bit; the table of
  the claim is what the code computes when the flag is set.
\<close>

lemma classify_relative_default:
  "\<not> flag_set flags w_no_relative_distance \<Longrightarrow>
     classify_relative flags v = Inr (if ev_side v > 0 then C_EQUAL + 1 else C_EQUAL)"
  by (simp add: classify_relative_def Let_def C_EQUAL_def C_UNCLE_def)

lemma classify_relative_flag_set:
  "flag_set flags w_no_relative_distance \<Longrightarrow>
     classify_relative flags v =
       (let y = ev_dist_fixed v - ev_peek_dist v in
        if y = 1 then Inr (if ev_side v > 0 then C_NEPHEW + 1 else C_NEPHEW)
        else if y = 0 then Inr (if ev_side v > 0 then C_EQUAL + 1 else C_EQUAL)
        else if y = -1 then Inr (if ev_side v = 0 then C_PARENT
                                 else if ev_side v > 0 then C_UNCLE + 1 else C_UNCLE)
        else Inl (rulegen_failure ''distance problem''))"
  by (simp add: classify_relative_def Let_def C_EQUAL_def C_UNCLE_def C_NEPHEW_def C_PARENT_def)

lemma flag_set_example: "flag_set w_no_relative_distance w_no_relative_distance"
  by (simp add: flag_set_def w_no_relative_distance_def Flag_def)

subsection \<open>Possible parents\<close>

lemma mark_initial_iff:
  "is_possible_parent (mark_initial ts) \<longleftrightarrow> DIR_PARENT \<in> set (rules ts)"
proof -
  have "foldl (\<lambda>b r. if r = DIR_PARENT then True else b) b0 rs \<longleftrightarrow> b0 \<or> DIR_PARENT \<in> set rs"
    for b0 rs
    by (induction rs arbitrary: b0) auto
  then show ?thesis by (simp add: mark_initial_def)
qed

lemma add_rules_spec:
  assumes "\<forall>r \<in> set rs. 0 \<le> r \<longrightarrow> nat r < length t"
  shows "\<exists>t'. add_rules t tid rid rs = Some t' \<and> length t' = length t
           \<and> clear_parents t' = clear_parents t
           \<and> (\<forall>j < length t. \<forall>p e. (p, e) \<in> set (possible_parents (t' ! j)) \<longleftrightarrow>
                 (p, e) \<in> set (possible_parents (t ! j))
                 \<or> (p = tid \<and> rid \<le> e \<and> nat (e - rid) < length rs \<and> rs ! nat (e - rid) = int j))"
  using assms
proof (induction rs arbitrary: t rid)
  case Nil
  then show ?case by simp
next
  case (Cons r rs)
  show ?case
  proof (cases "r \<ge> 0")
    case False
    have rng: "\<forall>r \<in> set rs. 0 \<le> r \<longrightarrow> nat r < length t" using Cons.prems by simp
    from Cons.IH [OF rng, where rid = "rid + 1"] obtain t' where
      t': "add_rules t tid (rid + 1) rs = Some t'" "length t' = length t"
          "clear_parents t' = clear_parents t"
          "\<forall>j < length t. \<forall>p e. (p, e) \<in> set (possible_parents (t' ! j)) \<longleftrightarrow>
                 (p, e) \<in> set (possible_parents (t ! j))
                 \<or> (p = tid \<and> rid + 1 \<le> e \<and> nat (e - (rid + 1)) < length rs
                      \<and> rs ! nat (e - (rid + 1)) = int j)"
      by blast
    have idx: "(rid \<le> e \<and> nat (e - rid) < length (r # rs) \<and> (r # rs) ! nat (e - rid) = int j)
             \<longleftrightarrow> (rid + 1 \<le> e \<and> nat (e - (rid + 1)) < length rs
                      \<and> rs ! nat (e - (rid + 1)) = int j)" for e j
    proof (cases "e = rid")
      case True
      then show ?thesis using False by simp
    next
      case ne: False
      show ?thesis
      proof (cases "rid \<le> e")
        case True
        then have "nat (e - rid) = Suc (nat (e - (rid + 1)))" using ne by linarith
        then show ?thesis using True ne by auto
      next
        case False
        then show ?thesis by simp
      qed
    qed
    have res: "add_rules t tid rid (r # rs) = Some t'" using t'(1) False by simp
    have main: "(p, e) \<in> set (possible_parents (t' ! j)) \<longleftrightarrow>
                 (p, e) \<in> set (possible_parents (t ! j))
                 \<or> (p = tid \<and> rid \<le> e \<and> nat (e - rid) < length (r # rs)
                      \<and> (r # rs) ! nat (e - rid) = int j)"
      if j: "j < length t" for j p e
      unfolding idx using t'(4) j by blast
    show ?thesis using res t'(2) t'(3) main by blast
  next
    case True
    then have lt: "nat r < length t" using Cons.prems by simp
    let ?t1 = "t[nat r := (t ! nat r)\<lparr>possible_parents :=
                               possible_parents (t ! nat r) @ [(tid, rid)]\<rparr>]"
    have rng: "\<forall>r \<in> set rs. 0 \<le> r \<longrightarrow> nat r < length ?t1" using Cons.prems by simp
    from Cons.IH [OF rng, where rid = "rid + 1"] obtain t' where
      t': "add_rules ?t1 tid (rid + 1) rs = Some t'" "length t' = length ?t1"
          "clear_parents t' = clear_parents ?t1"
          "\<forall>j < length ?t1. \<forall>p e. (p, e) \<in> set (possible_parents (t' ! j)) \<longleftrightarrow>
                 (p, e) \<in> set (possible_parents (?t1 ! j))
                 \<or> (p = tid \<and> rid + 1 \<le> e \<and> nat (e - (rid + 1)) < length rs
                      \<and> rs ! nat (e - (rid + 1)) = int j)"
      by blast
    have res: "add_rules t tid rid (r # rs) = Some t'" using t'(1) True lt by simp
    have cl: "clear_parents ?t1 = clear_parents t"
      using lt by (simp add: clear_parents_def map_update list_update_same_conv)
    have main: "(p, e) \<in> set (possible_parents (t' ! j)) \<longleftrightarrow>
                 (p, e) \<in> set (possible_parents (t ! j))
                 \<or> (p = tid \<and> rid \<le> e \<and> nat (e - rid) < length (r # rs)
                      \<and> (r # rs) ! nat (e - rid) = int j)"
      if j: "j < length t" for j p e
    proof -
      have a: "(p, e) \<in> set (possible_parents (t' ! j)) \<longleftrightarrow>
                 (p, e) \<in> set (possible_parents (?t1 ! j))
                 \<or> (p = tid \<and> rid + 1 \<le> e \<and> nat (e - (rid + 1)) < length rs
                      \<and> rs ! nat (e - (rid + 1)) = int j)"
        using t'(4) j by simp
      have b: "(p, e) \<in> set (possible_parents (?t1 ! j)) \<longleftrightarrow>
                 (p, e) \<in> set (possible_parents (t ! j)) \<or> (j = nat r \<and> p = tid \<and> e = rid)"
        using j lt by (auto simp: nth_list_update)
      have c: "(rid \<le> e \<and> nat (e - rid) < length (r # rs) \<and> (r # rs) ! nat (e - rid) = int j)
             \<longleftrightarrow> (e = rid \<and> j = nat r)
                 \<or> (rid + 1 \<le> e \<and> nat (e - (rid + 1)) < length rs
                      \<and> rs ! nat (e - (rid + 1)) = int j)"
      proof (cases "e = rid")
        case True
        then show ?thesis using \<open>r \<ge> 0\<close> by auto
      next
        case ne: False
        show ?thesis
        proof (cases "rid \<le> e")
          case True
          then have "nat (e - rid) = Suc (nat (e - (rid + 1)))" using ne by linarith
          then show ?thesis using True ne by auto
        next
          case False
          then show ?thesis by simp
        qed
      qed
      show ?thesis unfolding a b c by blast
    qed
    have len: "length t' = length t" using t'(2) by simp
    have cl': "clear_parents t' = clear_parents t" using t'(3) cl by simp
    show ?thesis using res len cl' main by blast
  qed
qed

lemma clear_parents_fields:
  assumes "clear_parents a = clear_parents b" and "i < length b"
  shows "length a = length b" and "rules (a ! i) = rules (b ! i)" and "ts_id (a ! i) = ts_id (b ! i)"
    and "is_possible_parent (a ! i) = is_possible_parent (b ! i)"
    and "is_live (a ! i) = is_live (b ! i)"
proof -
  show len: "length a = length b"
    using assms(1) unfolding clear_parents_def by (rule map_eq_imp_length_eq)
  have "clear_parents a ! i = clear_parents b ! i" using assms(1) by simp
  then have eq: "(a ! i)\<lparr>possible_parents := []\<rparr> = (b ! i)\<lparr>possible_parents := []\<rparr>"
    using assms(2) len by (simp add: clear_parents_def)
  from arg_cong [OF eq, of rules] show "rules (a ! i) = rules (b ! i)" by simp
  from arg_cong [OF eq, of ts_id] show "ts_id (a ! i) = ts_id (b ! i)" by simp
  from arg_cong [OF eq, of is_possible_parent]
  show "is_possible_parent (a ! i) = is_possible_parent (b ! i)" by simp
  from arg_cong [OF eq, of is_live] show "is_live (a ! i) = is_live (b ! i)" by simp
qed

lemma fold_collect_spec:
  assumes rng: "in_range tss0" and m: "m \<le> length tss0"
  shows "\<exists>t. fold collect_step [0..<m] (Some tss0) = Some t
           \<and> clear_parents t = clear_parents tss0
           \<and> (\<forall>j < length tss0. \<forall>p e. (p, e) \<in> set (possible_parents (t ! j)) \<longleftrightarrow>
                 (p, e) \<in> set (possible_parents (tss0 ! j))
                 \<or> (\<exists>i < m. p = ts_id (tss0 ! i) \<and> is_possible_parent (tss0 ! i) \<and> 0 \<le> e
                        \<and> nat e < length (rules (tss0 ! i)) \<and> rules (tss0 ! i) ! nat e = int j))"
  using m
proof (induction m)
  case 0
  then show ?case by simp
next
  case (Suc m)
  then have mlt: "m < length tss0" by simp
  from Suc obtain t where
    t: "fold collect_step [0..<m] (Some tss0) = Some t" "clear_parents t = clear_parents tss0"
       "\<forall>j < length tss0. \<forall>p e. (p, e) \<in> set (possible_parents (t ! j)) \<longleftrightarrow>
                 (p, e) \<in> set (possible_parents (tss0 ! j))
                 \<or> (\<exists>i < m. p = ts_id (tss0 ! i) \<and> is_possible_parent (tss0 ! i) \<and> 0 \<le> e
                        \<and> nat e < length (rules (tss0 ! i)) \<and> rules (tss0 ! i) ! nat e = int j)"
    by auto
  note f = clear_parents_fields [OF t(2) mlt]
  have step: "fold collect_step [0..<Suc m] (Some tss0) = collect_step m (Some t)"
    using t(1) by simp
  show ?case
  proof (cases "is_possible_parent (tss0 ! m)")
    case False
    then have "collect_step m (Some t) = Some t" using f(4) by (simp add: collect_step_def)
    moreover have "(\<exists>i < Suc m. p = ts_id (tss0 ! i) \<and> is_possible_parent (tss0 ! i) \<and> 0 \<le> e
                        \<and> nat e < length (rules (tss0 ! i)) \<and> rules (tss0 ! i) ! nat e = int j)
                \<longleftrightarrow> (\<exists>i < m. p = ts_id (tss0 ! i) \<and> is_possible_parent (tss0 ! i) \<and> 0 \<le> e
                        \<and> nat e < length (rules (tss0 ! i)) \<and> rules (tss0 ! i) ! nat e = int j)"
      for p e j
      using False by (auto simp: less_Suc_eq)
    ultimately show ?thesis using step t(2) t(3) by simp
  next
    case True
    have "tss0 ! m \<in> set tss0" using mlt by simp
    then have rr: "\<forall>r \<in> set (rules (t ! m)). 0 \<le> r \<longrightarrow> nat r < length t"
      using rng f(1) f(2) unfolding in_range_def by auto
    from add_rules_spec [OF rr, of "ts_id (t ! m)" 0] obtain t' where
      t': "add_rules t (ts_id (t ! m)) 0 (rules (t ! m)) = Some t'"
          "clear_parents t' = clear_parents t"
          "\<forall>j < length t. \<forall>p e. (p, e) \<in> set (possible_parents (t' ! j)) \<longleftrightarrow>
                 (p, e) \<in> set (possible_parents (t ! j))
                 \<or> (p = ts_id (t ! m) \<and> 0 \<le> e \<and> nat (e - 0) < length (rules (t ! m))
                      \<and> rules (t ! m) ! nat (e - 0) = int j)"
      by blast
    have cs: "collect_step m (Some t) = Some t'"
      using True f(4) t'(1) by (simp add: collect_step_def)
    have main: "(p, e) \<in> set (possible_parents (t' ! j)) \<longleftrightarrow>
                 (p, e) \<in> set (possible_parents (tss0 ! j))
                 \<or> (\<exists>i < Suc m. p = ts_id (tss0 ! i) \<and> is_possible_parent (tss0 ! i) \<and> 0 \<le> e
                        \<and> nat e < length (rules (tss0 ! i)) \<and> rules (tss0 ! i) ! nat e = int j)"
      if j: "j < length tss0" for j p e
    proof -
      have a: "(p, e) \<in> set (possible_parents (t' ! j)) \<longleftrightarrow>
                 (p, e) \<in> set (possible_parents (t ! j))
                 \<or> (p = ts_id (tss0 ! m) \<and> 0 \<le> e \<and> nat e < length (rules (tss0 ! m))
                      \<and> rules (tss0 ! m) ! nat e = int j)"
        using t'(3) j f(1) f(2) f(3) by simp
      have b: "(p, e) \<in> set (possible_parents (t ! j)) \<longleftrightarrow>
                 (p, e) \<in> set (possible_parents (tss0 ! j))
                 \<or> (\<exists>i < m. p = ts_id (tss0 ! i) \<and> is_possible_parent (tss0 ! i) \<and> 0 \<le> e
                        \<and> nat e < length (rules (tss0 ! i)) \<and> rules (tss0 ! i) ! nat e = int j)"
        using t(3) j by simp
      show ?thesis unfolding a b using True by (auto simp: less_Suc_eq)
    qed
    have cl: "clear_parents t' = clear_parents tss0" using t'(2) t(2) by simp
    show ?thesis using step cs cl main by simp
  qed
qed

lemma collect_parents_spec:
  assumes rng: "in_range tss"
  shows "\<exists>t. collect_parents (clear_parents tss) = Some t
           \<and> clear_parents t = clear_parents tss
           \<and> (\<forall>j < length tss. \<forall>p e. (p, e) \<in> set (possible_parents (t ! j)) \<longleftrightarrow>
                 (\<exists>i < length tss. p = ts_id (tss ! i) \<and> is_possible_parent (tss ! i) \<and> 0 \<le> e
                        \<and> nat e < length (rules (tss ! i)) \<and> rules (tss ! i) ! nat e = int j))"
proof -
  let ?c = "clear_parents tss"
  have len: "length ?c = length tss" by (simp add: clear_parents_def)
  have r0: "in_range ?c" using rng unfolding in_range_def clear_parents_def by auto
  have fld: "ts_id (?c ! i) = ts_id (tss ! i)" "is_possible_parent (?c ! i) = is_possible_parent (tss ! i)"
      "rules (?c ! i) = rules (tss ! i)" "possible_parents (?c ! i) = []" if "i < length tss" for i
    using that by (simp_all add: clear_parents_def)
  from fold_collect_spec [OF r0, of "length ?c"] obtain t where
    t: "fold collect_step [0..<length ?c] (Some ?c) = Some t" "clear_parents t = clear_parents ?c"
       "\<forall>j < length ?c. \<forall>p e. (p, e) \<in> set (possible_parents (t ! j)) \<longleftrightarrow>
                 (p, e) \<in> set (possible_parents (?c ! j))
                 \<or> (\<exists>i < length ?c. p = ts_id (?c ! i) \<and> is_possible_parent (?c ! i) \<and> 0 \<le> e
                        \<and> nat e < length (rules (?c ! i)) \<and> rules (?c ! i) ! nat e = int j)"
    by auto
  have cc: "clear_parents ?c = ?c" by (simp add: clear_parents_def comp_def)
  have "(p, e) \<in> set (possible_parents (t ! j)) \<longleftrightarrow>
                 (\<exists>i < length tss. p = ts_id (tss ! i) \<and> is_possible_parent (tss ! i) \<and> 0 \<le> e
                        \<and> nat e < length (rules (tss ! i)) \<and> rules (tss ! i) ! nat e = int j)"
    if "j < length tss" for j p e
    using t(3) that len fld by auto
  then show ?thesis using t(1) t(2) cc unfolding collect_parents_def by auto
qed

lemma core_fields:
  assumes "map core a = map core b" and "i < length b"
  shows "length a = length b" and "rules (a ! i) = rules (b ! i)" and "ts_id (a ! i) = ts_id (b ! i)"
    and "is_live (a ! i) = is_live (b ! i)"
proof -
  show len: "length a = length b" using assms(1) by (rule map_eq_imp_length_eq)
  have "map core a ! i = map core b ! i" using assms(1) by simp
  then have eq: "core (a ! i) = core (b ! i)" using assms(2) len by simp
  from arg_cong [OF eq, of rules] show "rules (a ! i) = rules (b ! i)" by (simp add: core_def)
  from arg_cong [OF eq, of ts_id] show "ts_id (a ! i) = ts_id (b ! i)" by (simp add: core_def)
  from arg_cong [OF eq, of is_live] show "is_live (a ! i) = is_live (b ! i)" by (simp add: core_def)
qed

lemma clear_core: "clear_parents a = clear_parents b \<Longrightarrow> map core a = map core b"
proof -
  assume "clear_parents a = clear_parents b"
  then have "map core (clear_parents a) = map core (clear_parents b)" by simp
  then show ?thesis by (simp add: clear_parents_def core_def [abs_def] comp_def)
qed

lemma prune_core: "map core (prune_orphans t) = map core t"
  by (simp add: prune_orphans_def core_def comp_def)

lemma prune_nth:
  assumes "j < length t"
  shows "is_possible_parent (prune_orphans t ! j)
           \<longleftrightarrow> is_possible_parent (t ! j) \<and> possible_parents (t ! j) \<noteq> []"
    and "possible_parents (prune_orphans t ! j) = possible_parents (t ! j)"
  using assms by (auto simp: prune_orphans_def orphan_def)

lemma no_changes_prune: "changes t = 0 \<Longrightarrow> prune_orphans t = t"
proof -
  assume "changes t = 0"
  then have "\<forall>ts \<in> set t. \<not> orphan ts"
    by (simp add: changes_def filter_empty_conv)
  then show ?thesis unfolding prune_orphans_def by (simp add: map_idI)
qed

lemma in_range_core: "map core a = map core b \<Longrightarrow> in_range b \<Longrightarrow> in_range a"
proof -
  assume eq: "map core a = map core b" and rb: "in_range b"
  show "in_range a"
    unfolding in_range_def
  proof (intro ballI impI)
    fix ts r assume "ts \<in> set a" "r \<in> set (rules ts)" "0 \<le> r"
    then obtain i where i: "i < length a" "ts = a ! i" by (auto simp: in_set_conv_nth)
    have len: "length a = length b" using eq by (rule map_eq_imp_length_eq)
    have "rules (a ! i) = rules (b ! i)" using core_fields(2) [OF eq] i len by simp
    moreover have "b ! i \<in> set b" using i len by simp
    ultimately show "nat r < length a"
      using rb \<open>r \<in> set (rules ts)\<close> \<open>0 \<le> r\<close> i len unfolding in_range_def by auto
  qed
qed

lemma find_possible_parents_loop_spec:
  "in_range tss \<Longrightarrow> \<exists>res. find_possible_parents_loop tss = Some res \<and> survivors tss res"
proof (induction tss rule: find_possible_parents_loop.induct)
  case (1 tss)
  let ?n = "length tss"
  from collect_parents_spec [OF "1.prems"] obtain t1 where
    t1: "collect_parents (clear_parents tss) = Some t1" "clear_parents t1 = clear_parents tss"
        "\<forall>j < ?n. \<forall>p e. (p, e) \<in> set (possible_parents (t1 ! j)) \<longleftrightarrow>
                 (\<exists>i < ?n. p = ts_id (tss ! i) \<and> is_possible_parent (tss ! i) \<and> 0 \<le> e
                        \<and> nat e < length (rules (tss ! i)) \<and> rules (tss ! i) ! nat e = int j)"
    by blast
  have len1: "length t1 = ?n"
    using t1(2) by (auto simp: clear_parents_def dest: map_eq_imp_length_eq)
  have flag1: "is_possible_parent (t1 ! j) = is_possible_parent (tss ! j)" if "j < ?n" for j
    using clear_parents_fields(4) [OF t1(2) that] .
  have core1: "map core t1 = map core tss" using t1(2) by (rule clear_core)
  show ?case
  proof (cases "changes t1 = 0")
    case True
    then have pr: "prune_orphans t1 = t1" by (rule no_changes_prune)
    have res: "find_possible_parents_loop tss = Some t1"
      using t1(1) True pr by (subst find_possible_parents_loop.simps) simp
    have nonempty: "possible_parents (t1 ! j) \<noteq> []" if "j < ?n" "is_possible_parent (t1 ! j)" for j
    proof -
      have "t1 ! j \<in> set t1" using that len1 by simp
      moreover have "\<forall>ts \<in> set t1. \<not> orphan ts"
        using True by (simp add: changes_def filter_empty_conv)
      ultimately show ?thesis using that(2) by (auto simp: orphan_def)
    qed
    have "survivors tss t1"
      unfolding survivors_def
      using core1 nonempty flag1 t1(3) by auto
    with res show ?thesis by blast
  next
    case False
    let ?t2 = "prune_orphans t1"
    have core2: "map core ?t2 = map core tss" using prune_core [of t1] core1 by simp
    have rng2: "in_range ?t2" using in_range_core [OF core2 "1.prems"] .
    from "1.IH" [OF t1(1) False rng2] obtain res where
      res: "find_possible_parents_loop ?t2 = Some res" "survivors ?t2 res"
      by blast
    have loop: "find_possible_parents_loop tss = Some res"
      using t1(1) False res(1) by (subst find_possible_parents_loop.simps) simp
    have len2: "length ?t2 = ?n" using len1 by (simp add: prune_orphans_def)
    have fld2: "rules (?t2 ! i) = rules (tss ! i)" "ts_id (?t2 ! i) = ts_id (tss ! i)"
      if "i < ?n" for i
      using core_fields(2,3) [OF core2 that] by auto
    have flag2: "is_possible_parent (?t2 ! j)
                   \<longleftrightarrow> is_possible_parent (tss ! j) \<and> possible_parents (t1 ! j) \<noteq> []"
      if "j < ?n" for j
      using prune_nth(1) [of j t1] that len1 flag1 by simp
    from res(2) have s2:
      "map core res = map core ?t2"
      "\<forall>j < ?n. is_possible_parent (res ! j)
          \<longrightarrow> is_possible_parent (?t2 ! j) \<and> possible_parents (res ! j) \<noteq> []"
      "\<forall>j < ?n. \<forall>p e. (p, e) \<in> set (possible_parents (res ! j)) \<longleftrightarrow>
         (\<exists>i < ?n. p = ts_id (?t2 ! i) \<and> is_possible_parent (res ! i) \<and> 0 \<le> e
            \<and> nat e < length (rules (?t2 ! i)) \<and> rules (?t2 ! i) ! nat e = int j)"
      "\<forall>S. (\<forall>j \<in> S. j < ?n \<and> is_possible_parent (?t2 ! j)
                \<and> (\<exists>i \<in> S. int j \<in> set (rules (?t2 ! i))))
         \<longrightarrow> (\<forall>j \<in> S. is_possible_parent (res ! j))"
      unfolding survivors_def len2 by blast+
    have A: "map core res = map core tss" using s2(1) core2 by simp
    have B: "\<forall>j < ?n. is_possible_parent (res ! j)
                \<longrightarrow> is_possible_parent (tss ! j) \<and> possible_parents (res ! j) \<noteq> []"
      using s2(2) flag2 by blast
    have C: "\<forall>j < ?n. \<forall>p e. (p, e) \<in> set (possible_parents (res ! j)) \<longleftrightarrow>
         (\<exists>i < ?n. p = ts_id (tss ! i) \<and> is_possible_parent (res ! i) \<and> 0 \<le> e
            \<and> nat e < length (rules (tss ! i)) \<and> rules (tss ! i) ! nat e = int j)"
      using s2(3) fld2 by auto
    have D: "\<forall>j \<in> S. is_possible_parent (res ! j)"
      if S: "\<forall>j \<in> S. j < ?n \<and> is_possible_parent (tss ! j)
                \<and> (\<exists>i \<in> S. int j \<in> set (rules (tss ! i)))" for S
    proof -
      have "j < ?n \<and> is_possible_parent (?t2 ! j) \<and> (\<exists>i \<in> S. int j \<in> set (rules (?t2 ! i)))"
        if j: "j \<in> S" for j
      proof -
        from S j obtain i where i: "j < ?n" "is_possible_parent (tss ! j)" "i \<in> S"
            "int j \<in> set (rules (tss ! i))" by blast
        from S i(3) have i': "i < ?n" "is_possible_parent (tss ! i)" by auto
        from i(4) obtain e where e: "e < length (rules (tss ! i))" "rules (tss ! i) ! e = int j"
          by (auto simp: in_set_conv_nth)
        have "(ts_id (tss ! i), int e) \<in> set (possible_parents (t1 ! j))"
          using t1(3) i(1) i' e by auto
        then have "possible_parents (t1 ! j) \<noteq> []" by auto
        then have "is_possible_parent (?t2 ! j)" using flag2 i(1,2) by simp
        moreover have "int j \<in> set (rules (?t2 ! i))" using fld2(1) [OF i'(1)] i(4) by simp
        ultimately show ?thesis using i(1,3) by blast
      qed
      with s2(4) show ?thesis by blast
    qed
    have "survivors tss res" unfolding survivors_def using A B C D by blast
    with loop show ?thesis by blast
  qed
qed

text \<open>
  Claim C8 (as amended). On a table whose states carry their index as \<^verbatim>\<open>id\<close> and whose
  non-negative rules are indices of the table, \<^verbatim>\<open>find_possible_parents\<close> returns; it
  changes only the marks and the lists. A state that is still marked has a \<^verbatim>\<open>PARENT\<close>
  rule and a non-empty list \<^verbatim>\<open>possible_parents\<close>; the list of state \<open>j\<close> holds exactly
  the pairs \<open>(p, e)\<close> such that \<open>p\<close> is still marked and rule \<open>e\<close> of \<open>p\<close> is \<open>j\<close>; and
  the marked states are the largest set of states with a \<^verbatim>\<open>PARENT\<close> rule in which every
  member is a child of a member: a state is unmarked when no state that is still marked
  (whether live or not) lists it as a child.
\<close>

theorem find_possible_parents_fixpoint:
  assumes ids: "\<forall>i < length tss. ts_id (tss ! i) = int i"
      and rng: "\<forall>ts \<in> set tss. \<forall>r \<in> set (rules ts). 0 \<le> r \<longrightarrow> nat r < length tss"
  shows "\<exists>res. find_possible_parents tss = Some res \<and> length res = length tss
       \<and> (\<forall>j < length tss. rules (res ! j) = rules (tss ! j) \<and> ts_id (res ! j) = ts_id (tss ! j)
             \<and> is_live (res ! j) = is_live (tss ! j))
       \<and> (\<forall>j < length tss. is_possible_parent (res ! j)
             \<longrightarrow> DIR_PARENT \<in> set (rules (tss ! j)) \<and> possible_parents (res ! j) \<noteq> [])
       \<and> (\<forall>j < length tss. \<forall>p e. (p, e) \<in> set (possible_parents (res ! j)) \<longleftrightarrow>
             (0 \<le> p \<and> nat p < length tss \<and> is_possible_parent (res ! nat p) \<and> 0 \<le> e
                \<and> nat e < length (rules (tss ! nat p)) \<and> rules (tss ! nat p) ! nat e = int j))
       \<and> (\<forall>S. (\<forall>j \<in> S. j < length tss \<and> DIR_PARENT \<in> set (rules (tss ! j))
                    \<and> (\<exists>i \<in> S. int j \<in> set (rules (tss ! i))))
             \<longrightarrow> (\<forall>j \<in> S. is_possible_parent (res ! j)))"
proof -
  let ?m = "map mark_initial tss"
  let ?n = "length tss"
  have fm: "rules (?m ! i) = rules (tss ! i)" "ts_id (?m ! i) = ts_id (tss ! i)"
      "is_live (?m ! i) = is_live (tss ! i)"
      "is_possible_parent (?m ! i) \<longleftrightarrow> DIR_PARENT \<in> set (rules (tss ! i))" if "i < ?n" for i
    using that mark_initial_iff [of "tss ! i"] by (simp_all add: mark_initial_def)
  have rm: "in_range ?m"
    using rng unfolding in_range_def by (auto simp: mark_initial_def)
  from find_possible_parents_loop_spec [OF rm] obtain res where
    res: "find_possible_parents_loop ?m = Some res" "survivors ?m res" by blast
  from res(2) have s:
      "map core res = map core ?m"
      "\<forall>j < ?n. is_possible_parent (res ! j)
          \<longrightarrow> is_possible_parent (?m ! j) \<and> possible_parents (res ! j) \<noteq> []"
      "\<forall>j < ?n. \<forall>p e. (p, e) \<in> set (possible_parents (res ! j)) \<longleftrightarrow>
         (\<exists>i < ?n. p = ts_id (?m ! i) \<and> is_possible_parent (res ! i) \<and> 0 \<le> e
            \<and> nat e < length (rules (?m ! i)) \<and> rules (?m ! i) ! nat e = int j)"
      "\<forall>S. (\<forall>j \<in> S. j < ?n \<and> is_possible_parent (?m ! j)
                \<and> (\<exists>i \<in> S. int j \<in> set (rules (?m ! i))))
         \<longrightarrow> (\<forall>j \<in> S. is_possible_parent (res ! j))"
    unfolding survivors_def by simp_all
  have lm: "length ?m = ?n" by simp
  have len: "length res = ?n" using s(1) lm by (metis length_map)
  have fr: "rules (res ! j) = rules (tss ! j) \<and> ts_id (res ! j) = ts_id (tss ! j)
             \<and> is_live (res ! j) = is_live (tss ! j)" if "j < ?n" for j
  proof -
    have "j < length ?m" using that by simp
    from core_fields(2,3,4) [OF s(1) this] fm [OF that] show ?thesis by simp
  qed
  have B: "\<forall>j < ?n. is_possible_parent (res ! j)
             \<longrightarrow> DIR_PARENT \<in> set (rules (tss ! j)) \<and> possible_parents (res ! j) \<noteq> []"
    using s(2) fm(4) by blast
  have C: "(p, e) \<in> set (possible_parents (res ! j)) \<longleftrightarrow>
             (0 \<le> p \<and> nat p < ?n \<and> is_possible_parent (res ! nat p) \<and> 0 \<le> e
                \<and> nat e < length (rules (tss ! nat p)) \<and> rules (tss ! nat p) ! nat e = int j)"
    if j: "j < ?n" for j p e
  proof -
    have "(p, e) \<in> set (possible_parents (res ! j)) \<longleftrightarrow>
         (\<exists>i < ?n. p = int i \<and> is_possible_parent (res ! i) \<and> 0 \<le> e
            \<and> nat e < length (rules (tss ! i)) \<and> rules (tss ! i) ! nat e = int j)"
      using s(3) j fm(1,2) ids by auto
    also have "\<dots> \<longleftrightarrow> (0 \<le> p \<and> nat p < ?n \<and> is_possible_parent (res ! nat p) \<and> 0 \<le> e
                \<and> nat e < length (rules (tss ! nat p)) \<and> rules (tss ! nat p) ! nat e = int j)"
    proof
      assume "\<exists>i < ?n. p = int i \<and> is_possible_parent (res ! i) \<and> 0 \<le> e
            \<and> nat e < length (rules (tss ! i)) \<and> rules (tss ! i) ! nat e = int j"
      then show "0 \<le> p \<and> nat p < ?n \<and> is_possible_parent (res ! nat p) \<and> 0 \<le> e
                \<and> nat e < length (rules (tss ! nat p)) \<and> rules (tss ! nat p) ! nat e = int j"
        by auto
    next
      assume a: "0 \<le> p \<and> nat p < ?n \<and> is_possible_parent (res ! nat p) \<and> 0 \<le> e
                \<and> nat e < length (rules (tss ! nat p)) \<and> rules (tss ! nat p) ! nat e = int j"
      then have "p = int (nat p)" by simp
      with a show "\<exists>i < ?n. p = int i \<and> is_possible_parent (res ! i) \<and> 0 \<le> e
            \<and> nat e < length (rules (tss ! i)) \<and> rules (tss ! i) ! nat e = int j"
        by blast
    qed
    finally show ?thesis .
  qed
  have D: "\<forall>j \<in> S. is_possible_parent (res ! j)"
    if S: "\<forall>j \<in> S. j < ?n \<and> DIR_PARENT \<in> set (rules (tss ! j))
                    \<and> (\<exists>i \<in> S. int j \<in> set (rules (tss ! i)))" for S
  proof -
    have "\<forall>j \<in> S. j < ?n \<and> is_possible_parent (?m ! j)
                \<and> (\<exists>i \<in> S. int j \<in> set (rules (?m ! i)))"
    proof
      fix j assume j: "j \<in> S"
      from S j obtain i where i: "j < ?n" "DIR_PARENT \<in> set (rules (tss ! j))" "i \<in> S"
          "int j \<in> set (rules (tss ! i))" by blast
      from S i(3) have ilt: "i < ?n" by blast
      have a: "is_possible_parent (?m ! j)" using fm(4) [OF i(1)] i(2) by blast
      have "int j \<in> set (rules (?m ! i))" using i(4) by (simp only: fm(1) [OF ilt])
      then have b: "\<exists>i \<in> S. int j \<in> set (rules (?m ! i))" using i(3) by blast
      show "j < ?n \<and> is_possible_parent (?m ! j) \<and> (\<exists>i \<in> S. int j \<in> set (rules (?m ! i)))"
        using i(1) a b by blast
    qed
    with s(4) show ?thesis by blast
  qed
  have "find_possible_parents tss = Some res" using res(1) by (simp add: find_possible_parents_def)
  then show ?thesis using len fr B C D by blast
qed

text \<open>
  The claim as written fails: state 1 has a \<^verbatim>\<open>PARENT\<close> rule and the live state 0 lists it
  as a child (twice), yet state 1 ends unmarked, because state 0, having no \<^verbatim>\<open>PARENT\<close>
  rule, is not itself marked.
\<close>

theorem find_possible_parents_live_counterexample:
  "find_possible_parents
     [mk_state 0 [1, 1] True, mk_state 1 [DIR_PARENT, 2] True, mk_state 2 [DIR_PARENT, 2] True]
   = Some [mk_state 0 [1, 1] True,
           mk_state 1 [DIR_PARENT, 2] True,
           (mk_state 2 [DIR_PARENT, 2] True)
              \<lparr>is_possible_parent := True, possible_parents := [(2, 1)]\<rparr>]"
  by (simp add: find_possible_parents_def find_possible_parents_loop.simps collect_parents_def
        collect_step_def clear_parents_def prune_orphans_def changes_def orphan_def
        mark_initial_def mk_state_def DIR_PARENT_def upt_rec)

theorem find_possible_parents_fixpoint_witness:
  "\<exists>res. find_possible_parents [mk_state 0 [1, 1] True, mk_state 1 [DIR_PARENT, 1] True] = Some res
       \<and> length res = 2 \<and> is_possible_parent (res ! 1) \<and> possible_parents (res ! 1) \<noteq> []"
proof -
  let ?T = "[mk_state 0 [1, 1] True, mk_state 1 [DIR_PARENT, 1] True]"
  have ids: "\<forall>i < length ?T. ts_id (?T ! i) = int i"
    by (auto simp: less_Suc_eq mk_state_def)
  have rng: "\<forall>ts \<in> set ?T. \<forall>r \<in> set (rules ts). 0 \<le> r \<longrightarrow> nat r < length ?T"
    by (auto simp: mk_state_def DIR_PARENT_def)
  from find_possible_parents_fixpoint [OF ids rng] obtain res where
    r0: "find_possible_parents ?T = Some res \<and> length res = length ?T
       \<and> (\<forall>j < length ?T. rules (res ! j) = rules (?T ! j) \<and> ts_id (res ! j) = ts_id (?T ! j)
             \<and> is_live (res ! j) = is_live (?T ! j))
       \<and> (\<forall>j < length ?T. is_possible_parent (res ! j)
             \<longrightarrow> DIR_PARENT \<in> set (rules (?T ! j)) \<and> possible_parents (res ! j) \<noteq> [])
       \<and> (\<forall>j < length ?T. \<forall>p e. (p, e) \<in> set (possible_parents (res ! j)) \<longleftrightarrow>
             (0 \<le> p \<and> nat p < length ?T \<and> is_possible_parent (res ! nat p) \<and> 0 \<le> e
                \<and> nat e < length (rules (?T ! nat p)) \<and> rules (?T ! nat p) ! nat e = int j))
       \<and> (\<forall>S. (\<forall>j \<in> S. j < length ?T \<and> DIR_PARENT \<in> set (rules (?T ! j))
                    \<and> (\<exists>i \<in> S. int j \<in> set (rules (?T ! i))))
             \<longrightarrow> (\<forall>j \<in> S. is_possible_parent (res ! j)))"
    by (rule exE)
  note res = r0 [THEN conjunct1] r0 [THEN conjunct2, THEN conjunct1]
    r0 [THEN conjunct2, THEN conjunct2, THEN conjunct2, THEN conjunct1]
    r0 [THEN conjunct2, THEN conjunct2, THEN conjunct2, THEN conjunct2, THEN conjunct2]
  have "\<forall>j \<in> {1::nat}. j < length ?T \<and> DIR_PARENT \<in> set (rules (?T ! j))
                    \<and> (\<exists>i \<in> {1::nat}. int j \<in> set (rules (?T ! i)))"
    by (simp add: mk_state_def)
  with res(4) have m: "is_possible_parent (res ! 1)" by blast
  with res(3) have "possible_parents (res ! 1) \<noteq> []" by simp
  with m res(1,2) show ?thesis by simp
qed

subsection \<open>Path compression\<close>

lemma ufind_self:
  "at (unified_to (tiles s (at p))) = at p \<Longrightarrow> ufind s p = Some (s, p)"
  by (subst ufind.simps) simp

lemma resolves_at_rep: "resolves s p q \<Longrightarrow> at (unified_to (tiles s (at q))) = at q"
  by (induction rule: resolves.induct) (simp_all add: wplus_def)

lemma resolves_fun: "resolves s p q \<Longrightarrow> resolves s p q' \<Longrightarrow> q = q'"
proof (induction arbitrary: q' rule: resolves.induct)
  case (rep p)
  from rep(2) rep(1) show ?case by (cases rule: resolves.cases) auto
next
  case (link p p1)
  from link(4) link(1) obtain p1' where "resolves s (unified_to (tiles s (at p))) p1'"
      "q' = wplus s p1' (spin p)"
    by (cases rule: resolves.cases) auto
  with link(3) show ?case by simp
qed

lemma compressed_refl: "compressed s s"
  by (simp add: compressed_def)

lemma compressed_type: "compressed s s' \<Longrightarrow> tc_type (tiles s' t) = tc_type (tiles s t)"
proof -
  assume "compressed s s'"
  then have "(tiles s' t)\<lparr>unified_to := unified_to (tiles s t)\<rparr> = tiles s t"
    by (simp add: compressed_def)
  from arg_cong [OF this, of tc_type] show ?thesis by simp
qed

lemma compressed_wplus: "compressed s s' \<Longrightarrow> wplus s' w k = wplus s w k"
  by (simp add: wplus_def compressed_type)

lemma compressed_rep:
  assumes "compressed s s'" and "at (unified_to (tiles s t)) = t"
  shows "unified_to (tiles s' t) = unified_to (tiles s t)"
  using assms by (auto simp: compressed_def)

lemma ufind_resolves:
  "resolves s p q \<Longrightarrow> \<exists>s'. ufind s p = Some (s', q) \<and> compressed s s'
      \<and> (at (unified_to (tiles s (at p))) \<noteq> at p \<longrightarrow> at (unified_to (tiles s' (at p))) = at q)"
proof (induction rule: resolves.induct)
  case (rep p)
  then have "ufind s p = Some (s, p)" by (subst ufind.simps) simp
  then show ?case using compressed_refl rep by blast
next
  case (link p p1)
  let ?u = "unified_to (tiles s (at p))"
  from link(3) obtain s1 where s1: "ufind s ?u = Some (s1, p1)" "compressed s s1" by blast
  let ?s' = "set_unified_to (at p) p1 s1"
  have res: "ufind s p = Some (?s', wplus s p1 (spin p))"
    using link(1) s1 by (subst ufind.simps) (simp add: compressed_wplus)
  have "compressed s ?s'"
    unfolding compressed_def
  proof (intro conjI allI)
    show "?s'\<lparr>tiles := tiles s\<rparr> = s"
      using s1(2) by (simp add: compressed_def set_unified_to_def)
  next
    fix t
    show "(tiles ?s' t)\<lparr>unified_to := unified_to (tiles s t)\<rparr> = tiles s t"
      using s1(2) by (simp add: compressed_def set_unified_to_def)
  next
    fix t
    show "unified_to (tiles ?s' t) = unified_to (tiles s t)
               \<or> (at (unified_to (tiles s t)) \<noteq> t
                    \<and> resolves s (unified_to (tiles s t)) (unified_to (tiles ?s' t)))"
    proof (cases "t = at p")
      case True
      then show ?thesis using link(1,2) by (simp add: set_unified_to_def)
    next
      case False
      then show ?thesis using s1(2) by (simp add: compressed_def set_unified_to_def)
    qed
  qed
  moreover have "at (unified_to (tiles ?s' (at p))) = at (wplus s p1 (spin p))"
    by (simp add: set_unified_to_def wplus_def)
  ultimately show ?case using res by blast
qed

lemma compressed_resolves:
  assumes c: "compressed s s'"
  shows "resolves s p q \<Longrightarrow> resolves s' p q"
proof (induction rule: resolves.induct)
  case (rep p)
  then have "at (unified_to (tiles s' (at p))) = at p" using compressed_rep [OF c] by simp
  then show ?case by (rule resolves.rep)
next
  case (link p p1)
  let ?u = "unified_to (tiles s (at p))"
  let ?u' = "unified_to (tiles s' (at p))"
  have r1: "at (unified_to (tiles s (at p1))) = at p1" using link(2) by (rule resolves_at_rep)
  from c have "?u' = ?u \<or> (at ?u \<noteq> at p \<and> resolves s ?u ?u')" by (simp add: compressed_def)
  then show ?case
  proof
    assume same: "?u' = ?u"
    then have "at ?u' \<noteq> at p" using link(1) by simp
    moreover have "resolves s' ?u' p1" using link(3) same by simp
    ultimately have "resolves s' p (wplus s' p1 (spin p))" by (rule resolves.link)
    then show ?thesis using compressed_wplus [OF c] by simp
  next
    assume "at ?u \<noteq> at p \<and> resolves s ?u ?u'"
    then have eq: "?u' = p1" using link(2) resolves_fun by blast
    have ne: "at ?u' \<noteq> at p" using eq r1 link(1) by auto
    have "at (unified_to (tiles s' (at p1))) = at p1" using compressed_rep [OF c r1] r1 by simp
    then have "resolves s' p1 p1" by (rule resolves.rep)
    then have "resolves s' ?u' p1" using eq by simp
    with ne have "resolves s' p (wplus s' p1 (spin p))" by (rule resolves.link)
    then show ?thesis using compressed_wplus [OF c] by simp
  qed
qed


text \<open>
  Claim C10. If the chain of links from the tile of \<open>p\<close> reaches a tile linked to itself
  and \<open>q\<close> is the walker \<open>p\<close> resolves to, then \<^verbatim>\<open>ufind(p)\<close> returns with \<open>p = q\<close>; the
  tile of \<open>q\<close> is that representative, linked to itself before and after; the tile \<open>p\<close>
  started from is now linked straight to it; every walker that resolved to some walker
  before resolves to the same walker after (so \<open>p\<close>, and every other walker, denotes the
  same cell as before); a second \<^verbatim>\<open>ufind\<close> on the result changes nothing; and nothing
  but links has changed.
\<close>

theorem ufind_representative:
  assumes "resolves s p q"
  shows "\<exists>s'. ufind s p = Some (s', q)
       \<and> at (unified_to (tiles s (at q))) = at q
       \<and> at (unified_to (tiles s' (at q))) = at q
       \<and> at (unified_to (tiles s' (at p))) = at q
       \<and> (\<forall>p2 q2. resolves s p2 q2 \<longrightarrow> resolves s' p2 q2)
       \<and> ufind s' q = Some (s', q)
       \<and> compressed s s'"
proof -
  from ufind_resolves [OF assms] obtain s' where
    s': "ufind s p = Some (s', q)" "compressed s s'"
        "at (unified_to (tiles s (at p))) \<noteq> at p \<longrightarrow> at (unified_to (tiles s' (at p))) = at q"
    by blast
  have r: "at (unified_to (tiles s (at q))) = at q" using assms by (rule resolves_at_rep)
  have r': "at (unified_to (tiles s' (at q))) = at q" using compressed_rep [OF s'(2) r] r by simp
  have pq: "at (unified_to (tiles s' (at p))) = at q"
  proof (cases "at (unified_to (tiles s (at p))) = at p")
    case True
    then have "resolves s p p" by (rule resolves.rep)
    with assms have "q = p" by (rule resolves_fun)
    with r' show ?thesis by simp
  next
    case False
    with s'(3) show ?thesis by simp
  qed
  have idem: "ufind s' q = Some (s', q)" using r' by (subst ufind.simps) simp
  show ?thesis using s'(1,2) r r' pq idem compressed_resolves [OF s'(2)] by blast
qed

theorem ufind_representative_witness:
  "\<exists>s'. ufind example_arena \<lparr>at = 2, spin = 1\<rparr> = Some (s', \<lparr>at = 0, spin = 6\<rparr>)
       \<and> at (unified_to (tiles s' 2)) = 0
       \<and> ufind s' \<lparr>at = 0, spin = 6\<rparr> = Some (s', \<lparr>at = 0, spin = 6\<rparr>)"
proof -
  have r0: "resolves example_arena \<lparr>at = 0, spin = 2\<rparr> \<lparr>at = 0, spin = 2\<rparr>"
    by (rule resolves.rep) (simp add: example_arena_def)
  have "resolves example_arena \<lparr>at = 1, spin = 3\<rparr> (wplus example_arena \<lparr>at = 0, spin = 2\<rparr> 3)"
    using r0 resolves.link [of example_arena "\<lparr>at = 1, spin = 3\<rparr>" "\<lparr>at = 0, spin = 2\<rparr>"]
    by (simp add: example_arena_def)
  then have r1: "resolves example_arena \<lparr>at = 1, spin = 3\<rparr> \<lparr>at = 0, spin = 5\<rparr>"
    by (simp add: wplus_def gmod_def example_arena_def)
  have "resolves example_arena \<lparr>at = 2, spin = 1\<rparr> (wplus example_arena \<lparr>at = 0, spin = 5\<rparr> 1)"
    using r1 resolves.link [of example_arena "\<lparr>at = 2, spin = 1\<rparr>" "\<lparr>at = 0, spin = 5\<rparr>"]
    by (simp add: example_arena_def)
  then have r2: "resolves example_arena \<lparr>at = 2, spin = 1\<rparr> \<lparr>at = 0, spin = 6\<rparr>"
    by (simp add: wplus_def gmod_def example_arena_def)
  from ufind_representative [OF r2] show ?thesis by auto
qed

lemma ufind_SomeD_aux:
  assumes "ufind s0 p0 = Some r0"
  shows "resolves s0 p0 (snd r0) \<and> (\<forall>t. tc_type (tiles (fst r0) t) = tc_type (tiles s0 t))"
proof (rule ufind.raw_induct
    [where P = "\<lambda>s p r. resolves s p (snd r) \<and> (\<forall>t. tc_type (tiles (fst r) t) = tc_type (tiles s t))",
     OF _ assms])
  fix f s p r
  assume IH: "\<And>s p r. f s p = Some r \<Longrightarrow>
                resolves s p (snd r) \<and> (\<forall>t. tc_type (tiles (fst r) t) = tc_type (tiles s t))"
    and body: "(if at (unified_to (tiles s (at p))) = at p then Some (s, p)
      else Option.bind (f s (unified_to (tiles s (at p))))
            (\<lambda>(s1, p1). Some (set_unified_to (at p) p1 s1, wplus s1 p1 (spin p)))) = Some r"
  show "resolves s p (snd r) \<and> (\<forall>t. tc_type (tiles (fst r) t) = tc_type (tiles s t))"
  proof (cases "at (unified_to (tiles s (at p))) = at p")
    case True
    with body have "r = (s, p)" by simp
    moreover have "resolves s p p" using True by (rule resolves.rep)
    ultimately show ?thesis by simp
  next
    case False
    let ?u = "unified_to (tiles s (at p))"
    from body False obtain s1 p1 where f: "f s ?u = Some (s1, p1)"
        and r: "r = (set_unified_to (at p) p1 s1, wplus s1 p1 (spin p))"
      by (auto simp: bind_eq_Some_conv)
    from IH [OF f] have I: "resolves s ?u p1" "\<forall>t. tc_type (tiles s1 t) = tc_type (tiles s t)"
      by simp_all
    have "wplus s1 p1 (spin p) = wplus s p1 (spin p)" using I(2) by (simp add: wplus_def)
    moreover have "resolves s p (wplus s p1 (spin p))" using False I(1) by (rule resolves.link)
    moreover have "\<forall>t. tc_type (tiles (set_unified_to (at p) p1 s1) t) = tc_type (tiles s t)"
      using I(2) by (simp add: set_unified_to_def)
    ultimately show ?thesis using r by simp
  qed
qed

lemma ufind_SomeD:
  assumes "ufind s p = Some (s', q)"
  shows "resolves s p q" and "compressed s s'"
proof -
  from ufind_SomeD_aux [OF assms] show r: "resolves s p q" by simp
  from ufind_resolves [OF r] assms show "compressed s s'" by auto
qed

lemma ufind_rep_after:
  assumes "ufind s p = Some (s', q)"
  shows "at (unified_to (tiles s' (at q))) = at q"
proof -
  note d = ufind_SomeD [OF assms]
  have "at (unified_to (tiles s (at q))) = at q" using d(1) by (rule resolves_at_rep)
  with compressed_rep [OF d(2) this] show ?thesis by simp
qed

lemma ufind_keeps_rep:
  assumes "ufind s p = Some (s', q)" and "at (unified_to (tiles s t)) = t"
  shows "at (unified_to (tiles s' t)) = t"
  using compressed_rep [OF ufind_SomeD(2) [OF assms(1)] assms(2)] assms(2) by simp

subsection \<open>Closing a vertex: \<^verbatim>\<open>check_loops\<close>\<close>







lemma connect_effect:
  "c_move (tiles (connect q1 q2 s) (at q2)) (spin q2) = Some q1"
  "\<not> (at q1 = at q2 \<and> spin q1 = spin q2) \<Longrightarrow>
     c_move (tiles (connect q1 q2 s) (at q1)) (spin q1) = Some q2"
  "\<not> (t = at q1 \<and> d = spin q1) \<Longrightarrow> \<not> (t = at q2 \<and> d = spin q2) \<Longrightarrow>
     c_move (tiles (connect q1 q2 s) t) d = c_move (tiles s t) d"
  "(tiles (connect q1 q2 s) t)\<lparr>c_move := c_move (tiles s t)\<rparr> = tiles s t"
  "(connect q1 q2 s)\<lparr>tiles := tiles s\<rparr> = s"
  "fix_queue (connect q1 q2 s) = fix_queue s"
  "in_fixing (connect q1 q2 s) = in_fixing s"
  by (auto simp: connect_def set_move_def)

lemma compressed_fields:
  assumes "compressed s s'"
  shows "in_fixing s' = in_fixing s" and "fix_queue s' = fix_queue s"
proof -
  from assms have e: "s'\<lparr>tiles := tiles s\<rparr> = s" by (simp add: compressed_def)
  from arg_cong [OF e, of in_fixing] show "in_fixing s' = in_fixing s" by simp
  from arg_cong [OF e, of fix_queue] show "fix_queue s' = fix_queue s" by simp
qed






lemma example_vertex_tiles:
  "unified_to (tiles example_vertex t) = \<lparr>at = t, spin = 0\<rparr>"
  "tc_type (tiles example_vertex t) = 7"
  "tc_id (tiles example_vertex t) = 0"
  "c_move (tiles example_vertex 0) 0 = Some \<lparr>at = 2, spin = 3\<rparr>"
  "c_move (tiles example_vertex 2) 2 = Some \<lparr>at = 3, spin = 5\<rparr>"
  "c_move (tiles example_vertex 3) 4 = None"
  "c_move (tiles example_vertex 0) 1 = None"
  "in_fixing example_vertex"
  "fix_queue example_vertex = [do_check_loops \<lparr>at = 0, spin = 0\<rparr>]"
  by (simp_all add: example_vertex_def)




subsection \<open>Unification\<close>

lemma c_rem_eq_0_iff: "b \<noteq> 0 \<Longrightarrow> c_rem a b = 0 \<longleftrightarrow> b dvd a"
proof -
  assume "b \<noteq> 0"
  have "c_rem a b = 0 \<longleftrightarrow> a = 0 \<or> \<bar>a\<bar> mod \<bar>b\<bar> = 0" by (auto simp: c_rem_def sgn_if)
  also have "\<dots> \<longleftrightarrow> \<bar>b\<bar> dvd \<bar>a\<bar>" by (auto simp: dvd_eq_mod_eq_0)
  also have "\<dots> \<longleftrightarrow> b dvd a" by simp
  finally show ?thesis .
qed

lemma unify_loop_at:
  "unify_loop E n pw1 pw2 s = Some (Inr (se, q1, q2)) \<Longrightarrow> at q1 = at pw1 \<and> at q2 = at pw2"
proof (induction n arbitrary: pw1 pw2 s)
  case 0
  then show ?case by simp
next
  case (Suc n)
  from Suc.prems obtain s' where
    "unify_loop E n (wplus s' pw1 1) (wplus s' pw2 1) s' = Some (Inr (se, q1, q2))"
    by (auto split: option.splits sum.splits)
  from Suc.IH [OF this] show ?case by (simp add: wplus_def)
qed


lemma process_fix_queue_busy: "in_fixing s \<Longrightarrow> process_fix_queue E s = Some (Inr s)"
  by (simp add: process_fix_queue_def)

lemma connect_tile:
  "tc_type (tiles (connect q1 q2 s) t) = tc_type (tiles s t)"
  "unified_to (tiles (connect q1 q2 s) t) = unified_to (tiles s t)"
  by (simp_all add: connect_def set_move_def)

lemma connect_and_check_busy:
  assumes b: "in_fixing s" and c: "connect_and_check E p1 p2 s = Some (Inr s')"
  shows "in_fixing s'"
    and "tc_type (tiles s' t) = tc_type (tiles s t)"
    and "at (unified_to (tiles s t)) = t \<Longrightarrow> unified_to (tiles s' t) = unified_to (tiles s t)"
proof -
  from c obtain s1 q1 s2 q2 where u1: "ufind s p1 = Some (s1, q1)"
    and u2: "ufind s1 p2 = Some (s2, q2)"
    and p: "process_fix_queue E ((connect q1 q2 s2)\<lparr>fix_queue :=
              fix_queue (connect q1 q2 s2) @ [do_check_loops q1, do_check_loops q2]\<rparr>) = Some (Inr s')"
    by (auto simp: connect_and_check_def Let_def split: option.splits)
  note c1 = ufind_SomeD(2) [OF u1] and c2 = ufind_SomeD(2) [OF u2]
  have b2: "in_fixing s2" using b compressed_fields(1) [OF c1] compressed_fields(1) [OF c2] by simp
  let ?S = "(connect q1 q2 s2)\<lparr>fix_queue :=
              fix_queue (connect q1 q2 s2) @ [do_check_loops q1, do_check_loops q2]\<rparr>"
  have bS: "in_fixing ?S" using b2 by (simp add: connect_effect(7))
  from p process_fix_queue_busy [OF bS, of E] have s': "s' = ?S" by simp
  show "in_fixing s'" using bS s' by simp
  show "tc_type (tiles s' t) = tc_type (tiles s t)"
    using compressed_type [OF c1] compressed_type [OF c2] by (simp add: s' connect_tile)
  assume r: "at (unified_to (tiles s t)) = t"
  have r1: "unified_to (tiles s1 t) = unified_to (tiles s t)" using c1 r by (rule compressed_rep)
  then have "at (unified_to (tiles s1 t)) = t" using r by simp
  then have "unified_to (tiles s2 t) = unified_to (tiles s1 t)" by (rule compressed_rep [OF c2])
  with r1 show "unified_to (tiles s' t) = unified_to (tiles s t)"
    by (simp add: s' connect_tile)
qed

lemma push_unify_busy:
  assumes "push_unify a c s = Inr s'"
  shows "in_fixing s' = in_fixing s" and "tiles s' = tiles s"
  using assms by (auto simp: push_unify_def split: if_splits)

lemma unify_edge_busy:
  assumes b: "in_fixing s" and e: "unify_edge E pw1 pw2 s = Some (Inr s')"
  shows "in_fixing s' \<and> (\<forall>t. tc_type (tiles s' t) = tc_type (tiles s t))
       \<and> (\<forall>t. at (unified_to (tiles s t)) = t \<longrightarrow> unified_to (tiles s' t) = unified_to (tiles s t))"
proof (cases "wstep s pw2")
  case None
  with e show ?thesis using b by (simp add: unify_edge_def)
next
  case (Some w2)
  show ?thesis
  proof (cases "wstep s pw1")
    case None
    with e Some have c: "connect_and_check E pw1 w2 s = Some (Inr s')"
      by (simp add: unify_edge_def)
    from connect_and_check_busy [OF b c] show ?thesis by blast
  next
    case (Some ss)
    with e \<open>wstep s pw2 = Some w2\<close> obtain sa sb where
      pu: "push_unify ss w2 s = Inr sa"
      and c1: "connect_and_check E pw1 w2 sa = Some (Inr sb)"
      and c2: "connect_and_check E pw1 ss sb = Some (Inr s')"
      by (auto simp: unify_edge_def split: sum.splits option.splits)
    note pa = push_unify_busy [OF pu]
    have ba: "in_fixing sa" using b pa by simp
    note A = connect_and_check_busy [OF ba c1]
    note B = connect_and_check_busy [OF A(1) c2]
    have "in_fixing s'" by (rule B(1))
    moreover have "\<forall>t. tc_type (tiles s' t) = tc_type (tiles s t)"
      using A(2) B(2) pa(2) by simp
    moreover have "\<forall>t. at (unified_to (tiles s t)) = t \<longrightarrow>
                     unified_to (tiles s' t) = unified_to (tiles s t)"
    proof (intro allI impI)
      fix t assume r: "at (unified_to (tiles s t)) = t"
      then have ra: "at (unified_to (tiles sa t)) = t" using pa(2) by simp
      from A(3) [OF ra] have e1: "unified_to (tiles sb t) = unified_to (tiles sa t)" .
      then have rb: "at (unified_to (tiles sb t)) = t" using ra by simp
      from B(3) [OF rb] e1 pa(2) show "unified_to (tiles s' t) = unified_to (tiles s t)" by simp
    qed
    ultimately show ?thesis by blast
  qed
qed

lemma unify_loop_busy:
  assumes "in_fixing s" and "unify_loop E n pw1 pw2 s = Some (Inr (se, q1, q2))"
  shows "in_fixing se \<and> (\<forall>t. tc_type (tiles se t) = tc_type (tiles s t))
       \<and> (\<forall>t. at (unified_to (tiles s t)) = t \<longrightarrow> unified_to (tiles se t) = unified_to (tiles s t))
       \<and> at q1 = at pw1 \<and> at q2 = at pw2
       \<and> (0 < n \<longrightarrow> spin q1 = (spin pw1 + int n) mod tc_type (tiles s (at pw1))
                  \<and> spin q2 = (spin pw2 + int n) mod tc_type (tiles s (at pw2)))"
  using assms
proof (induction n arbitrary: pw1 pw2 s)
  case 0
  then show ?case by simp
next
  case (Suc n)
  from Suc.prems(2) obtain s' where e: "unify_edge E pw1 pw2 s = Some (Inr s')"
    and l: "unify_loop E n (wplus s' pw1 1) (wplus s' pw2 1) s' = Some (Inr (se, q1, q2))"
    by (auto split: option.splits sum.splits)
  note E = unify_edge_busy [OF Suc.prems(1) e]
  have b': "in_fixing s'" using E by simp
  note I = Suc.IH [OF b' l]
  let ?T1 = "tc_type (tiles s (at pw1))" and ?T2 = "tc_type (tiles s (at pw2))"
  have ty: "\<forall>t. tc_type (tiles s' t) = tc_type (tiles s t)" using E by simp
  have w1: "wplus s' pw1 1 = \<lparr>at = at pw1, spin = (spin pw1 + 1) mod ?T1\<rparr>"
   and w2: "wplus s' pw2 1 = \<lparr>at = at pw2, spin = (spin pw2 + 1) mod ?T2\<rparr>"
    using ty by (simp_all add: wplus_def gmod_def)
  have sp1: "spin q1 = (spin pw1 + int (Suc n)) mod ?T1"
  proof (cases "n = 0")
    case True
    with l have "q1 = wplus s' pw1 1" by auto
    then show ?thesis using True w1 by simp
  next
    case False
    with I have "spin q1 = (spin (wplus s' pw1 1) + int n) mod tc_type (tiles s' (at (wplus s' pw1 1)))"
      by simp
    then have "spin q1 = ((spin pw1 + 1) mod ?T1 + int n) mod ?T1" using w1 ty by simp
    also have "\<dots> = (spin pw1 + 1 + int n) mod ?T1" by (simp add: mod_add_left_eq)
    finally show ?thesis by (simp add: add.assoc)
  qed
  have sp2: "spin q2 = (spin pw2 + int (Suc n)) mod ?T2"
  proof (cases "n = 0")
    case True
    with l have "q2 = wplus s' pw2 1" by auto
    then show ?thesis using True w2 by simp
  next
    case False
    with I have "spin q2 = (spin (wplus s' pw2 1) + int n) mod tc_type (tiles s' (at (wplus s' pw2 1)))"
      by simp
    then have "spin q2 = ((spin pw2 + 1) mod ?T2 + int n) mod ?T2" using w2 ty by simp
    also have "\<dots> = (spin pw2 + 1 + int n) mod ?T2" by (simp add: mod_add_left_eq)
    finally show ?thesis by (simp add: add.assoc)
  qed
  have rep: "\<forall>t. at (unified_to (tiles s t)) = t \<longrightarrow> unified_to (tiles se t) = unified_to (tiles s t)"
  proof (intro allI impI)
    fix t assume r: "at (unified_to (tiles s t)) = t"
    with E have e1: "unified_to (tiles s' t) = unified_to (tiles s t)" by simp
    then have "at (unified_to (tiles s' t)) = t" using r by simp
    with I e1 show "unified_to (tiles se t) = unified_to (tiles s t)" by simp
  qed
  have "in_fixing se" using I by simp
  moreover have "\<forall>t. tc_type (tiles se t) = tc_type (tiles s t)" using I ty by simp
  moreover have "at q1 = at pw1" "at q2 = at pw2" using I w1 w2 by simp_all
  ultimately show ?case using rep sp1 sp2 by simp
qed


text \<open>
  Claim C6 (as amended). Let both calls of \<^verbatim>\<open>ufind\<close> at the start of \<^verbatim>\<open>unify(w1, w2)\<close>
  return, with walkers \<open>pw1\<close> and \<open>pw2\<close> that differ. If the shapes of their tiles differ,
  or the spins differ by a number that the \<^verbatim>\<open>cycle_length\<close> of the shape does not
  divide, \<^verbatim>\<open>unify\<close> throws an \<^verbatim>\<open>hr_exception\<close>, which no handler for retries catches.
  If the two walkers are on the same tile (with different spins) it throws as well,
  whatever the spins. Let them be on different tiles of the same shape, with spins that
  agree modulo \<^verbatim>\<open>cycle_length\<close>, and let the merge of the distances return, leaving the
  queue in processing (as it is whenever \<^verbatim>\<open>unify\<close> runs, being called from the queue),
  both tiles with as many edges as the shape and the tile of \<open>pw1\<close> its own representative.
  Then, if the loop over the edges returns, the link of the tile of \<open>pw2\<close> is set to the
  tile of \<open>pw1\<close>, with the difference of the spins of the two walkers reduced modulo the
  number of edges; the tile of \<open>pw1\<close> keeps its link to itself and is the representative
  of both; \<^verbatim>\<open>tunified\<close> is incremented; nothing else changes; and the call ends as
  \<^verbatim>\<open>fix_distances\<close> does on that state. If the loop throws or does not return, so does
  \<^verbatim>\<open>unify\<close>, without setting the link.
\<close>

theorem unify_checks_and_link:
  assumes u1: "ufind s0 pw1' = Some (s1, pw1)" and u2: "ufind s1 pw2' = Some (s, pw2)"
      and ne: "pw1 \<noteq> pw2"
  shows "(tc_id (tiles s (at pw1)) \<noteq> tc_id (tiles s (at pw2)) \<longrightarrow>
            (\<exists>m. unify E shs pw1' pw2' s0 = Some (Inl (hr_exception m))))
       \<and> (\<forall>sh. shape_of shs (tc_id (tiles s (at pw1))) = Some sh \<and> cycle_length sh \<noteq> 0
               \<and> \<not> cycle_length sh dvd (spin pw1 - spin pw2) \<longrightarrow>
            (\<exists>m. unify E shs pw1' pw2' s0 = Some (Inl (hr_exception m))))
       \<and> (\<forall>m. \<not> is_rulegen_retry (hr_exception m))
       \<and> (at pw1 = at pw2 \<longrightarrow>
            unify E shs pw1' pw2' s0
              = Some (Inl (hr_exception ''called unify with self and wrong direction'')))
       \<and> (\<forall>sh sd.
             at pw1 \<noteq> at pw2 \<and> tc_id (tiles s (at pw1)) = tc_id (tiles s (at pw2))
             \<and> shape_of shs (tc_id (tiles s (at pw1))) = Some sh \<and> cycle_length sh \<noteq> 0
             \<and> cycle_length sh dvd (spin pw1 - spin pw2)
             \<and> unify_distances E (at pw1) (at pw2) (spin pw2 - spin pw1) s = Some (Inr sd)
             \<and> in_fixing sd \<and> 0 < sh_size sh
             \<and> tc_type (tiles sd (at pw1)) = sh_size sh \<and> tc_type (tiles sd (at pw2)) = sh_size sh
             \<and> at (unified_to (tiles sd (at pw1))) = at pw1 \<longrightarrow>
               (unify_loop E (nat (sh_size sh)) pw1 pw2 sd = None \<longrightarrow>
                  unify E shs pw1' pw2' s0 = None)
             \<and> (\<forall>e. unify_loop E (nat (sh_size sh)) pw1 pw2 sd = Some (Inl e) \<longrightarrow>
                  unify E shs pw1' pw2' s0 = Some (Inl e))
             \<and> (\<forall>se qw1 qw2.
                  unify_loop E (nat (sh_size sh)) pw1 pw2 sd = Some (Inr (se, qw1, qw2)) \<longrightarrow>
                  (\<exists>S. unify E shs pw1' pw2' s0 = fix_distances E (at pw1) S
                     \<and> unified_to (tiles S (at pw2))
                         = \<lparr>at = at pw1, spin = (spin pw1 - spin pw2) mod sh_size sh\<rparr>
                     \<and> unified_to (tiles S (at pw1)) = unified_to (tiles sd (at pw1))
                     \<and> at (unified_to (tiles S (at pw1))) = at pw1
                     \<and> tunified S = tunified se + 1
                     \<and> (\<forall>t. t \<noteq> at pw2 \<longrightarrow> tiles S t = tiles se t)
                     \<and> (tiles S (at pw2))\<lparr>unified_to := unified_to (tiles se (at pw2))\<rparr>
                         = tiles se (at pw2)
                     \<and> S\<lparr>tiles := tiles se, tunified := tunified se\<rparr> = se)))"
proof -
  have r2: "at (unified_to (tiles s (at pw2))) = at pw2" using u2 by (rule ufind_rep_after)
  have "at (unified_to (tiles s1 (at pw1))) = at pw1" using u1 by (rule ufind_rep_after)
  then have r1: "at (unified_to (tiles s (at pw1))) = at pw1" using ufind_keeps_rep [OF u2] by simp
  have unf: "unify E shs pw1' pw2' s0 =
     (if at pw1 = at pw2 then
            (if spin pw1 \<noteq> spin pw2
             then Some (Inl (hr_exception ''called unify with self and wrong direction''))
             else Some (Inr s))
          else if tc_id (tiles s (at pw1)) \<noteq> tc_id (tiles s (at pw2))
            then Some (Inl (hr_exception ''unifying two cells of different id's''))
          else
            (case shape_of shs (tc_id (tiles s (at pw1))) of
               None \<Rightarrow> None
             | Some sh \<Rightarrow>
                 if cycle_length sh = 0 then None
                 else if c_rem (spin pw1 - spin pw2) (cycle_length sh) \<noteq> 0
                   then Some (Inl (hr_exception ''unification spin disagrees with cycle_length''))
                 else
                   (case unify_distances E (at pw1) (at pw2) (spin pw2 - spin pw1) s of
                      None \<Rightarrow> None
                    | Some (Inl e) \<Rightarrow> Some (Inl e)
                    | Some (Inr sd) \<Rightarrow>
                        (case unify_loop E (nat (sh_size sh)) pw1 pw2 sd of
                           None \<Rightarrow> None
                         | Some (Inl e) \<Rightarrow> Some (Inl e)
                         | Some (Inr (se, qw1, qw2)) \<Rightarrow>
                             fix_distances E (at qw1) (link_tiles qw1 qw2 se)))))"
    by (simp add: unify_def u1 u2 ne r1 r2)
  have sp: "at pw1 = at pw2 \<Longrightarrow> spin pw1 \<noteq> spin pw2"
    using ne by (cases pw1, cases pw2) auto
  have A: "tc_id (tiles s (at pw1)) \<noteq> tc_id (tiles s (at pw2)) \<longrightarrow>
            (\<exists>m. unify E shs pw1' pw2' s0 = Some (Inl (hr_exception m)))"
    unfolding unf by auto
  have B: "\<exists>m. unify E shs pw1' pw2' s0 = Some (Inl (hr_exception m))"
    if "shape_of shs (tc_id (tiles s (at pw1))) = Some sh" "cycle_length sh \<noteq> 0"
       "\<not> cycle_length sh dvd (spin pw1 - spin pw2)" for sh
    unfolding unf using that sp c_rem_eq_0_iff [of "cycle_length sh" "spin pw1 - spin pw2"]
    by auto
  have C: "at pw1 = at pw2 \<longrightarrow>
            unify E shs pw1' pw2' s0
              = Some (Inl (hr_exception ''called unify with self and wrong direction''))"
    unfolding unf using sp by simp
  have D: "(unify_loop E (nat (sh_size sh)) pw1 pw2 sd = None \<longrightarrow>
                  unify E shs pw1' pw2' s0 = None)
             \<and> (\<forall>e. unify_loop E (nat (sh_size sh)) pw1 pw2 sd = Some (Inl e) \<longrightarrow>
                  unify E shs pw1' pw2' s0 = Some (Inl e))
             \<and> (\<forall>se qw1 qw2.
                  unify_loop E (nat (sh_size sh)) pw1 pw2 sd = Some (Inr (se, qw1, qw2)) \<longrightarrow>
                  (\<exists>S. unify E shs pw1' pw2' s0 = fix_distances E (at pw1) S
                     \<and> unified_to (tiles S (at pw2))
                         = \<lparr>at = at pw1, spin = (spin pw1 - spin pw2) mod sh_size sh\<rparr>
                     \<and> unified_to (tiles S (at pw1)) = unified_to (tiles sd (at pw1))
                     \<and> at (unified_to (tiles S (at pw1))) = at pw1
                     \<and> tunified S = tunified se + 1
                     \<and> (\<forall>t. t \<noteq> at pw2 \<longrightarrow> tiles S t = tiles se t)
                     \<and> (tiles S (at pw2))\<lparr>unified_to := unified_to (tiles se (at pw2))\<rparr>
                         = tiles se (at pw2)
                     \<and> S\<lparr>tiles := tiles se, tunified := tunified se\<rparr> = se))"
    if h: "at pw1 \<noteq> at pw2" "tc_id (tiles s (at pw1)) = tc_id (tiles s (at pw2))"
       "shape_of shs (tc_id (tiles s (at pw1))) = Some sh" "cycle_length sh \<noteq> 0"
       "cycle_length sh dvd (spin pw1 - spin pw2)"
       "unify_distances E (at pw1) (at pw2) (spin pw2 - spin pw1) s = Some (Inr sd)"
      and q: "in_fixing sd" "0 < sh_size sh" "tc_type (tiles sd (at pw1)) = sh_size sh"
       "tc_type (tiles sd (at pw2)) = sh_size sh" "at (unified_to (tiles sd (at pw1))) = at pw1"
    for sh sd
  proof -
    let ?T = "sh_size sh"
    have c0: "c_rem (spin pw1 - spin pw2) (cycle_length sh) = 0"
      using c_rem_eq_0_iff [OF h(4)] h(5) by simp
    have un: "unify E shs pw1' pw2' s0 =
                (case unify_loop E (nat ?T) pw1 pw2 sd of
                   None \<Rightarrow> None
                 | Some (Inl e) \<Rightarrow> Some (Inl e)
                 | Some (Inr (se, qw1, qw2)) \<Rightarrow>
                     fix_distances E (at qw1) (link_tiles qw1 qw2 se))"
      unfolding unf using h c0 by simp
    have L: "\<exists>S. unify E shs pw1' pw2' s0 = fix_distances E (at pw1) S
                     \<and> unified_to (tiles S (at pw2))
                         = \<lparr>at = at pw1, spin = (spin pw1 - spin pw2) mod ?T\<rparr>
                     \<and> unified_to (tiles S (at pw1)) = unified_to (tiles sd (at pw1))
                     \<and> at (unified_to (tiles S (at pw1))) = at pw1
                     \<and> tunified S = tunified se + 1
                     \<and> (\<forall>t. t \<noteq> at pw2 \<longrightarrow> tiles S t = tiles se t)
                     \<and> (tiles S (at pw2))\<lparr>unified_to := unified_to (tiles se (at pw2))\<rparr>
                         = tiles se (at pw2)
                     \<and> S\<lparr>tiles := tiles se, tunified := tunified se\<rparr> = se"
      if l: "unify_loop E (nat ?T) pw1 pw2 sd = Some (Inr (se, qw1, qw2))" for se qw1 qw2
    proof -
      note I = unify_loop_busy [OF q(1) l]
      have n0: "0 < nat ?T" using q(2) by simp
      have a: "at qw1 = at pw1" "at qw2 = at pw2" using I by simp_all
      have s1: "spin qw1 = (spin pw1 + ?T) mod ?T" and s2: "spin qw2 = (spin pw2 + ?T) mod ?T"
        using I n0 q(2,3,4) by simp_all
      have ty: "tc_type (tiles se (at pw1)) = ?T" using I q(3) by simp
      have rp: "unified_to (tiles se (at pw1)) = unified_to (tiles sd (at pw1))"
        using I q(5) by simp
      have sp': "(spin qw1 - spin qw2) mod ?T = (spin pw1 - spin pw2) mod ?T"
        unfolding s1 s2 by (simp add: mod_diff_eq)
      let ?S = "link_tiles qw1 qw2 se"
      have e1: "unify E shs pw1' pw2' s0 = fix_distances E (at pw1) ?S"
        using un l a by simp
      have e2: "unified_to (tiles ?S (at pw2))
                  = \<lparr>at = at pw1, spin = (spin pw1 - spin pw2) mod ?T\<rparr>"
        using a ty sp' by (simp add: link_tiles_def set_unified_to_def wplus_def gmod_def)
      have e3: "unified_to (tiles ?S (at pw1)) = unified_to (tiles sd (at pw1))"
        using a h(1) rp by (simp add: link_tiles_def set_unified_to_def)
      have e4: "at (unified_to (tiles ?S (at pw1))) = at pw1" using e3 q(5) by simp
      have e5: "tunified ?S = tunified se + 1" by (simp add: link_tiles_def set_unified_to_def)
      have e6: "\<forall>t. t \<noteq> at pw2 \<longrightarrow> tiles ?S t = tiles se t"
        using a by (simp add: link_tiles_def set_unified_to_def)
      have e7: "(tiles ?S (at pw2))\<lparr>unified_to := unified_to (tiles se (at pw2))\<rparr>
                  = tiles se (at pw2)"
        using a by (simp add: link_tiles_def set_unified_to_def)
      have e8: "?S\<lparr>tiles := tiles se, tunified := tunified se\<rparr> = se"
        by (simp add: link_tiles_def set_unified_to_def)
      from e1 e2 e3 e4 e5 e6 e7 e8 show ?thesis by (intro exI [of _ ?S] conjI)
    qed
    have N: "unify_loop E (nat ?T) pw1 pw2 sd = None \<longrightarrow> unify E shs pw1' pw2' s0 = None"
      using un by simp
    have X: "\<forall>e. unify_loop E (nat ?T) pw1 pw2 sd = Some (Inl e) \<longrightarrow>
                  unify E shs pw1' pw2' s0 = Some (Inl e)"
      using un by simp
    from N X L show ?thesis by blast
  qed
  have R: "\<forall>m. \<not> is_rulegen_retry (hr_exception m)" by simp
  have B': "\<forall>sh. shape_of shs (tc_id (tiles s (at pw1))) = Some sh \<and> cycle_length sh \<noteq> 0
               \<and> \<not> cycle_length sh dvd (spin pw1 - spin pw2) \<longrightarrow>
            (\<exists>m. unify E shs pw1' pw2' s0 = Some (Inl (hr_exception m)))"
    using B by blast
  have D': "(\<forall>sh sd.
             at pw1 \<noteq> at pw2 \<and> tc_id (tiles s (at pw1)) = tc_id (tiles s (at pw2))
             \<and> shape_of shs (tc_id (tiles s (at pw1))) = Some sh \<and> cycle_length sh \<noteq> 0
             \<and> cycle_length sh dvd (spin pw1 - spin pw2)
             \<and> unify_distances E (at pw1) (at pw2) (spin pw2 - spin pw1) s = Some (Inr sd)
             \<and> in_fixing sd \<and> 0 < sh_size sh
             \<and> tc_type (tiles sd (at pw1)) = sh_size sh \<and> tc_type (tiles sd (at pw2)) = sh_size sh
             \<and> at (unified_to (tiles sd (at pw1))) = at pw1 \<longrightarrow>
               (unify_loop E (nat (sh_size sh)) pw1 pw2 sd = None \<longrightarrow>
                  unify E shs pw1' pw2' s0 = None)
             \<and> (\<forall>e. unify_loop E (nat (sh_size sh)) pw1 pw2 sd = Some (Inl e) \<longrightarrow>
                  unify E shs pw1' pw2' s0 = Some (Inl e))
             \<and> (\<forall>se qw1 qw2.
                  unify_loop E (nat (sh_size sh)) pw1 pw2 sd = Some (Inr (se, qw1, qw2)) \<longrightarrow>
                  (\<exists>S. unify E shs pw1' pw2' s0 = fix_distances E (at pw1) S
                     \<and> unified_to (tiles S (at pw2))
                         = \<lparr>at = at pw1, spin = (spin pw1 - spin pw2) mod sh_size sh\<rparr>
                     \<and> unified_to (tiles S (at pw1)) = unified_to (tiles sd (at pw1))
                     \<and> at (unified_to (tiles S (at pw1))) = at pw1
                     \<and> tunified S = tunified se + 1
                     \<and> (\<forall>t. t \<noteq> at pw2 \<longrightarrow> tiles S t = tiles se t)
                     \<and> (tiles S (at pw2))\<lparr>unified_to := unified_to (tiles se (at pw2))\<rparr>
                         = tiles se (at pw2)
                     \<and> S\<lparr>tiles := tiles se, tunified := tunified se\<rparr> = se)))"
    by (intro allI impI) (elim conjE, rule D, assumption+)
  from A B' R C D' show ?thesis by (intro conjI)
qed


text \<open>
  The theorem on \<open>example_vertex\<close>, for the walkers \<open>(0, 0)\<close> and \<open>(3, 0)\<close>: the loop finds
  one edge on tile 3, edge 5 to \<open>(2, 2)\<close>, and none on tile 0 in that direction, so it
  connects \<open>(0, 5)\<close> to \<open>(2, 2)\<close>; then tile 3 is linked to \<open>(0, 0)\<close>.
\<close>

theorem unify_checks_and_link_witness:
  "\<exists>S. unify plain_engine example_shapes \<lparr>at = 0, spin = 0\<rparr> \<lparr>at = 3, spin = 0\<rparr> example_vertex
         = Some (Inr S)
     \<and> unified_to (tiles S 3) = \<lparr>at = 0, spin = 0\<rparr>
     \<and> unified_to (tiles S 0) = \<lparr>at = 0, spin = 0\<rparr>
     \<and> c_move (tiles S 2) 2 = Some \<lparr>at = 0, spin = 5\<rparr>
     \<and> c_move (tiles S 0) 5 = Some \<lparr>at = 2, spin = 2\<rparr>
     \<and> tunified S = 1"
proof -
  let ?p1 = "\<lparr>at = 0, spin = 0\<rparr>" and ?p2 = "\<lparr>at = 3, spin = 0\<rparr>"
  let ?q = "[do_check_loops \<lparr>at = 0, spin = 0\<rparr>, do_check_loops \<lparr>at = 0, spin = 5\<rparr>,
             do_check_loops \<lparr>at = 2, spin = 2\<rparr>]"
  let ?se = "(connect \<lparr>at = 0, spin = 5\<rparr> \<lparr>at = 2, spin = 2\<rparr> example_vertex)\<lparr>fix_queue := ?q\<rparr>"
  have u: "ufind example_vertex w = Some (example_vertex, w)" for w
    by (rule ufind_self) (simp add: example_vertex_tiles)
  have ne: "?p1 \<noteq> ?p2" by simp
  have mv: "c_move (tiles example_vertex 3) i = (if i = 5 then Some \<lparr>at = 2, spin = 2\<rparr> else None)"
           "c_move (tiles example_vertex 0) 5 = None" for i
    by (simp_all add: example_vertex_def)
  have none: "unify_edge plain_engine \<lparr>at = 0, spin = i\<rparr> \<lparr>at = 3, spin = i\<rparr> example_vertex
                = Some (Inr example_vertex)" if "i \<noteq> 5" for i
    using that by (simp add: unify_edge_def wstep_def mv)
  have five: "unify_edge plain_engine \<lparr>at = 0, spin = 5\<rparr> \<lparr>at = 3, spin = 5\<rparr> example_vertex
                = Some (Inr ?se)"
    by (simp add: unify_edge_def wstep_def mv connect_and_check_def u Let_def
          process_fix_queue_busy connect_effect example_vertex_tiles)
  have six: "unify_edge plain_engine \<lparr>at = 0, spin = 6\<rparr> \<lparr>at = 3, spin = 6\<rparr> ?se = Some (Inr ?se)"
    by (simp add: unify_edge_def wstep_def connect_def set_move_def mv)
  have rot: "wplus example_vertex \<lparr>at = a, spin = i\<rparr> 1 = \<lparr>at = a, spin = (i + 1) mod 7\<rparr>"
            "wplus ?se \<lparr>at = a, spin = i\<rparr> 1 = \<lparr>at = a, spin = (i + 1) mod 7\<rparr>" for a i
    by (simp_all add: wplus_def gmod_def connect_tile example_vertex_tiles)
  have l7: "unify_loop plain_engine (Suc 0) \<lparr>at = 0, spin = 6\<rparr> \<lparr>at = 3, spin = 6\<rparr> ?se
              = Some (Inr (?se, \<lparr>at = 0, spin = 0\<rparr>, \<lparr>at = 3, spin = 0\<rparr>))"
    by (simp add: six rot del: One_nat_def)
  have l6: "unify_loop plain_engine (Suc (Suc 0)) \<lparr>at = 0, spin = 5\<rparr> \<lparr>at = 3, spin = 5\<rparr>
              example_vertex
              = Some (Inr (?se, \<lparr>at = 0, spin = 0\<rparr>, \<lparr>at = 3, spin = 0\<rparr>))"
    using l7 by (simp add: five rot del: One_nat_def)
  have step: "unify_loop plain_engine (Suc n) \<lparr>at = 0, spin = i\<rparr> \<lparr>at = 3, spin = i\<rparr> example_vertex
                = unify_loop plain_engine n \<lparr>at = 0, spin = (i + 1) mod 7\<rparr>
                    \<lparr>at = 3, spin = (i + 1) mod 7\<rparr> example_vertex" if "i \<noteq> 5" for n i
    using none [OF that] by (simp add: rot)
  have loop: "unify_loop plain_engine (nat (sh_size (example_shapes ! 0))) ?p1 ?p2 example_vertex
                = Some (Inr (?se, ?p1, ?p2))"
  proof -
    have n7: "nat (sh_size (example_shapes ! 0)) = Suc (Suc (Suc (Suc (Suc (Suc (Suc 0))))))"
      by (simp add: example_shapes_def eval_nat_numeral)
    have "unify_loop plain_engine (Suc (Suc (Suc (Suc (Suc (Suc (Suc 0))))))) ?p1 ?p2 example_vertex
            = unify_loop plain_engine (Suc (Suc 0)) \<lparr>at = 0, spin = 5\<rparr> \<lparr>at = 3, spin = 5\<rparr>
                example_vertex"
      supply unify_loop.simps [simp del]
      by (simp add: step)
    then show ?thesis using l6 n7 by simp
  qed
  have h: "at ?p1 \<noteq> at ?p2
         \<and> tc_id (tiles example_vertex (at ?p1)) = tc_id (tiles example_vertex (at ?p2))
         \<and> shape_of example_shapes (tc_id (tiles example_vertex (at ?p1))) = Some (example_shapes ! 0)
         \<and> cycle_length (example_shapes ! 0) \<noteq> 0
         \<and> cycle_length (example_shapes ! 0) dvd (spin ?p1 - spin ?p2)
         \<and> unify_distances plain_engine (at ?p1) (at ?p2) (spin ?p2 - spin ?p1) example_vertex
             = Some (Inr example_vertex)
         \<and> in_fixing example_vertex \<and> 0 < sh_size (example_shapes ! 0)
         \<and> tc_type (tiles example_vertex (at ?p1)) = sh_size (example_shapes ! 0)
         \<and> tc_type (tiles example_vertex (at ?p2)) = sh_size (example_shapes ! 0)
         \<and> at (unified_to (tiles example_vertex (at ?p1))) = at ?p1"
    by (simp add: example_vertex_tiles shape_of_def example_shapes_def plain_engine_def)
  note t = unify_checks_and_link [OF u u ne, of plain_engine example_shapes,
      THEN conjunct2, THEN conjunct2, THEN conjunct2, THEN conjunct2, rule_format, OF h,
      THEN conjunct2, THEN conjunct2, rule_format, OF loop]
  have fd: "fix_distances plain_engine c x = Some (Inr x)" for c x
    by (simp add: plain_engine_def)
  from t obtain S where
    S: "unify plain_engine example_shapes ?p1 ?p2 example_vertex = Some (Inr S)"
       "unified_to (tiles S (at ?p2)) = \<lparr>at = at ?p1, spin = (spin ?p1 - spin ?p2)
            mod sh_size (example_shapes ! 0)\<rparr>"
       "unified_to (tiles S (at ?p1)) = unified_to (tiles example_vertex (at ?p1))"
       "tunified S = tunified ?se + 1"
       "\<forall>t. t \<noteq> at ?p2 \<longrightarrow> tiles S t = tiles ?se t"
    unfolding fd by blast
  have m2: "c_move (tiles S 2) 2 = Some \<lparr>at = 0, spin = 5\<rparr>"
    using S(5) by (simp add: connect_def set_move_def)
  have m0: "c_move (tiles S 0) 5 = Some \<lparr>at = 2, spin = 2\<rparr>"
    using S(5) by (simp add: connect_def set_move_def)
  have tu: "tunified S = 1"
    using S(4) by (simp add: connect_def set_move_def example_vertex_def)
  from S(1) S(2) S(3) m2 m0 tu show ?thesis
    by (intro exI [of _ S]) (simp add: example_vertex_tiles example_shapes_def)
qed

text \<open>
  The claim as written fails: the walkers \<open>(0, 0)\<close> and \<open>(0, 3)\<close> are not identical, their
  tile has one shape, and the difference of their spins is divisible by the
  \<^verbatim>\<open>cycle_length\<close> (1) of that shape; yet \<^verbatim>\<open>unify\<close> sets no link: it throws.
\<close>

theorem unify_self_counterexample:
  "unify idle_engine example_shapes \<lparr>at = 0, spin = 0\<rparr> \<lparr>at = 0, spin = 3\<rparr> example_arena
     = Some (Inl (hr_exception ''called unify with self and wrong direction''))
   \<and> c_rem (0 - 3) (cycle_length (example_shapes ! 0)) = 0"
proof -
  have u1: "ufind example_arena \<lparr>at = 0, spin = 0\<rparr> = Some (example_arena, \<lparr>at = 0, spin = 0\<rparr>)"
    by (subst ufind.simps) (simp add: example_arena_def)
  have u2: "ufind example_arena \<lparr>at = 0, spin = 3\<rparr> = Some (example_arena, \<lparr>at = 0, spin = 3\<rparr>)"
    by (subst ufind.simps) (simp add: example_arena_def)
  have "unify idle_engine example_shapes \<lparr>at = 0, spin = 0\<rparr> \<lparr>at = 0, spin = 3\<rparr> example_arena
     = Some (Inl (hr_exception ''called unify with self and wrong direction''))"
    by (simp add: unify_def u1 u2) (simp add: example_arena_def)
  then show ?thesis by (simp add: example_shapes_def c_rem_def)
qed

subsection \<open>The parent direction of a root\<close>

lemma be_solid_root:
  assumes "dist (tiles s c') = 0" and "at (unified_to (tiles s c')) = c'"
      and "is_solid (tiles s c') \<or> tcellcount s < max_tcellcount"
  shows "be_solid E P flags max_tcellcount c' s
           = Some (Inr (s\<lparr>tiles := (tiles s)(c' := (tiles s c')\<lparr>is_solid := True\<rparr>)\<rparr>))"
proof (cases "is_solid (tiles s c')")
  case True
  then have "(tiles s)(c' := (tiles s c')\<lparr>is_solid := True\<rparr>) = tiles s" by auto
  with True show ?thesis by (subst be_solid.simps) simp
next
  case False
  have u: "ufindc s c' = Some (s, c')"
    unfolding ufindc_def using assms(2) by (subst ufind.simps) simp
  have m: "(0::int) \<noteq> MYSTERY" by (simp add: MYSTERY_def)
  show ?thesis
    using False assms(1,3) m
    by (subst be_solid.simps)
       (simp add: u calc_distances_def look_for_shortcuts_def set_is_solid_def Let_def)
qed

lemma be_solid_full:
  assumes "\<not> is_solid (tiles s c')" and "max_tcellcount \<le> tcellcount s"
  shows "be_solid E P flags max_tcellcount c' s
           = Some (Inl (rulegen_surrender ''max_tcellcount exceeded''))"
  using assms by (subst be_solid.simps) simp

text \<open>
  Claim C4 (as amended). Let a root tile (distance 0) be its own representative, with no
  cached parent direction and no earlier parent direction other than \<open>-1\<close>. If the tile is
  not solid yet and the arena is full (\<^verbatim>\<open>tcellcount >= max_tcellcount\<close>), both
  \<^verbatim>\<open>get_parent_dir\<close> and \<^verbatim>\<open>get_code\<close> end with the Surrender "max_tcellcount exceeded".
  Otherwise \<^verbatim>\<open>get_parent_dir\<close> returns the walker \<open>(tile, -1)\<close>, marks the tile solid, caches
  \<open>parent_dir = -1\<close> (the value for "no parent", not 0) and counts one parent update,
  changing nothing else; a second call returns the cached \<open>-1\<close>. It is \<^verbatim>\<open>get_code\<close> that
  reports parent direction 0 for a root: with a cached code it maps the cached \<open>-1\<close> to 0,
  and without one it uses the walker \<open>(tile, 0)\<close> for a tile at distance 0, never calling
  \<^verbatim>\<open>get_parent_dir\<close>.
\<close>

theorem get_parent_dir_root:
  assumes root: "dist (tiles s (at cw)) = 0"
      and unset: "parent_dir (tiles s (at cw)) = MYSTERY"
      and self: "at (unified_to (tiles s (at cw))) = at cw"
      and old: "old_parent_dir (tiles s (at cw)) = MYSTERY \<or> old_parent_dir (tiles s (at cw)) = -1"
  shows "(\<not> is_solid (tiles s (at cw)) \<and> max_tcellcount \<le> tcellcount s \<longrightarrow>
            get_parent_dir E P shs flags max_tcellcount cw s
              = Some (Inl (rulegen_surrender ''max_tcellcount exceeded''))
          \<and> get_code E P shs flags max_tcellcount cw s
              = Some (Inl (rulegen_surrender ''max_tcellcount exceeded'')))
       \<and> (is_solid (tiles s (at cw)) \<or> tcellcount s < max_tcellcount \<longrightarrow>
           (\<exists>s'. get_parent_dir E P shs flags max_tcellcount cw s
                    = Some (Inr (s', cw, \<lparr>at = at cw, spin = -1\<rparr>))
             \<and> s' = s\<lparr>tiles := (tiles s)(at cw :=
                         (tiles s (at cw))\<lparr>is_solid := True, parent_dir := -1\<rparr>),
                       parent_updates := parent_updates s + 1\<rparr>
             \<and> parent_dir (tiles s' (at cw)) = -1
             \<and> dist (tiles s' (at cw)) = 0
             \<and> is_solid (tiles s' (at cw))
             \<and> parent_updates s' = parent_updates s + 1
             \<and> (\<forall>t. t \<noteq> at cw \<longrightarrow> tiles s' t = tiles s t)
             \<and> get_parent_dir E P shs flags max_tcellcount cw s'
                    = Some (Inr (s', cw, \<lparr>at = at cw, spin = -1\<rparr>))
             \<and> get_code E P shs flags max_tcellcount cw s'
                 = (if tc_code (tiles s' (at cw)) \<noteq> MYSTERY
                    then Some (Inr (s', cw, 0, tc_code (tiles s' (at cw))))
                    else case assign_code P \<lparr>at = at cw, spin = 0\<rparr> s' of
                           None \<Rightarrow> None
                         | Some (Inl e) \<Rightarrow> Some (Inl e)
                         | Some (Inr (s4, i)) \<Rightarrow> Some (Inr (s4, cw, 0, i))))
         \<and> get_code E P shs flags max_tcellcount cw s
              = (case assign_code P \<lparr>at = at cw, spin = 0\<rparr>
                        (s\<lparr>tiles := (tiles s)(at cw := (tiles s (at cw))\<lparr>is_solid := True\<rparr>)\<rparr>) of
                   None \<Rightarrow> None
                 | Some (Inl e) \<Rightarrow> Some (Inl e)
                 | Some (Inr (s4, i)) \<Rightarrow> Some (Inr (s4, cw, 0, i))))"
proof -
  let ?c = "at cw"
  let ?s1 = "s\<lparr>tiles := (tiles s)(?c := (tiles s ?c)\<lparr>is_solid := True\<rparr>)\<rparr>"
  let ?s' = "s\<lparr>tiles := (tiles s)(?c := (tiles s ?c)\<lparr>is_solid := True, parent_dir := -1\<rparr>),
               parent_updates := parent_updates s + 1\<rparr>"
  let ?gp = "get_parent_dir E P shs flags max_tcellcount cw"
  let ?gc = "get_code E P shs flags max_tcellcount cw"
  have m: "(-1::int) \<noteq> MYSTERY" by (simp add: MYSTERY_def)
  have full: "?gp s = Some (Inl (rulegen_surrender ''max_tcellcount exceeded''))
            \<and> ?gc s = Some (Inl (rulegen_surrender ''max_tcellcount exceeded''))"
    if f: "\<not> is_solid (tiles s ?c)" "max_tcellcount \<le> tcellcount s"
  proof -
    note bs = be_solid_full [OF f, of E P flags]
    have "?gp s = Some (Inl (rulegen_surrender ''max_tcellcount exceeded''))"
      using unset by (subst get_parent_dir.simps) (simp add: bs)
    moreover have "?gc s = Some (Inl (rulegen_surrender ''max_tcellcount exceeded''))"
      using unset by (simp add: get_code_def Let_def bs)
    ultimately show ?thesis by simp
  qed
  have ok: "\<exists>s'. ?gp s = Some (Inr (s', cw, \<lparr>at = ?c, spin = -1\<rparr>))
             \<and> s' = ?s'
             \<and> parent_dir (tiles s' ?c) = -1
             \<and> dist (tiles s' ?c) = 0
             \<and> is_solid (tiles s' ?c)
             \<and> parent_updates s' = parent_updates s + 1
             \<and> (\<forall>t. t \<noteq> ?c \<longrightarrow> tiles s' t = tiles s t)
             \<and> ?gp s' = Some (Inr (s', cw, \<lparr>at = ?c, spin = -1\<rparr>))
             \<and> ?gc s'
                 = (if tc_code (tiles s' ?c) \<noteq> MYSTERY
                    then Some (Inr (s', cw, 0, tc_code (tiles s' ?c)))
                    else case assign_code P \<lparr>at = ?c, spin = 0\<rparr> s' of
                           None \<Rightarrow> None
                         | Some (Inl e) \<Rightarrow> Some (Inl e)
                         | Some (Inr (s4, i)) \<Rightarrow> Some (Inr (s4, cw, 0, i)))"
       and code: "?gc s = (case assign_code P \<lparr>at = ?c, spin = 0\<rparr> ?s1 of
                   None \<Rightarrow> None
                 | Some (Inl e) \<Rightarrow> Some (Inl e)
                 | Some (Inr (s4, i)) \<Rightarrow> Some (Inr (s4, cw, 0, i)))"
    if room: "is_solid (tiles s ?c) \<or> tcellcount s < max_tcellcount"
  proof -
    have bs: "be_solid E P flags max_tcellcount ?c s = Some (Inr ?s1)"
      using root self room by (rule be_solid_root)
    have st: "store_parent_dir P ?c cw (-1) ?s1 = Some (Inr (?s', cw, \<lparr>at = ?c, spin = -1\<rparr>))"
      using old
      by (auto simp: store_parent_dir_def Let_def set_parent_dir_def count_parent_update_def)
    have g1: "?gp s = Some (Inr (?s', cw, \<lparr>at = ?c, spin = -1\<rparr>))"
      using unset root by (subst get_parent_dir.simps) (simp add: bs st)
    have g2: "?gp ?s' = Some (Inr (?s', cw, \<lparr>at = ?c, spin = -1\<rparr>))"
      using m by (subst get_parent_dir.simps) simp
    have bs': "be_solid E P flags max_tcellcount ?c ?s' = Some (Inr ?s')"
      by (subst be_solid.simps) simp
    have c1: "?gc ?s'
            = (if tc_code (tiles ?s' ?c) \<noteq> MYSTERY
               then Some (Inr (?s', cw, 0, tc_code (tiles ?s' ?c)))
               else case assign_code P \<lparr>at = ?c, spin = 0\<rparr> ?s' of
                      None \<Rightarrow> None
                    | Some (Inl e) \<Rightarrow> Some (Inl e)
                    | Some (Inr (s4, i)) \<Rightarrow> Some (Inr (s4, cw, 0, i)))"
      using m root
      by (simp add: get_code_def Let_def bs' split: option.splits sum.splits)
    show "?gc s = (case assign_code P \<lparr>at = ?c, spin = 0\<rparr> ?s1 of
                   None \<Rightarrow> None
                 | Some (Inl e) \<Rightarrow> Some (Inl e)
                 | Some (Inr (s4, i)) \<Rightarrow> Some (Inr (s4, cw, 0, i)))"
      using unset root
      by (simp add: get_code_def Let_def bs split: option.splits sum.splits)
    have f1: "parent_dir (tiles ?s' ?c) = -1" "dist (tiles ?s' ?c) = 0" "is_solid (tiles ?s' ?c)"
      "parent_updates ?s' = parent_updates s + 1" "\<forall>t. t \<noteq> ?c \<longrightarrow> tiles ?s' t = tiles s t"
      using root by simp_all
    show "\<exists>s'. ?gp s = Some (Inr (s', cw, \<lparr>at = ?c, spin = -1\<rparr>))
             \<and> s' = ?s'
             \<and> parent_dir (tiles s' ?c) = -1
             \<and> dist (tiles s' ?c) = 0
             \<and> is_solid (tiles s' ?c)
             \<and> parent_updates s' = parent_updates s + 1
             \<and> (\<forall>t. t \<noteq> ?c \<longrightarrow> tiles s' t = tiles s t)
             \<and> ?gp s' = Some (Inr (s', cw, \<lparr>at = ?c, spin = -1\<rparr>))
             \<and> ?gc s'
                 = (if tc_code (tiles s' ?c) \<noteq> MYSTERY
                    then Some (Inr (s', cw, 0, tc_code (tiles s' ?c)))
                    else case assign_code P \<lparr>at = ?c, spin = 0\<rparr> s' of
                           None \<Rightarrow> None
                         | Some (Inl e) \<Rightarrow> Some (Inl e)
                         | Some (Inr (s4, i)) \<Rightarrow> Some (Inr (s4, cw, 0, i)))"
      using g1 g2 c1 f1 by (intro exI [of _ ?s'] conjI) simp_all
  qed
  show ?thesis
  proof (intro conjI impI)
    assume a: "\<not> is_solid (tiles s ?c) \<and> max_tcellcount \<le> tcellcount s"
    then show "?gp s = Some (Inl (rulegen_surrender ''max_tcellcount exceeded''))"
      and "?gc s = Some (Inl (rulegen_surrender ''max_tcellcount exceeded''))"
      using full by simp_all
  next
    assume a: "is_solid (tiles s ?c) \<or> tcellcount s < max_tcellcount"
    from ok [OF a] show "\<exists>s'. ?gp s = Some (Inr (s', cw, \<lparr>at = ?c, spin = -1\<rparr>))
             \<and> s' = ?s'
             \<and> parent_dir (tiles s' ?c) = -1
             \<and> dist (tiles s' ?c) = 0
             \<and> is_solid (tiles s' ?c)
             \<and> parent_updates s' = parent_updates s + 1
             \<and> (\<forall>t. t \<noteq> ?c \<longrightarrow> tiles s' t = tiles s t)
             \<and> ?gp s' = Some (Inr (s', cw, \<lparr>at = ?c, spin = -1\<rparr>))
             \<and> ?gc s'
                 = (if tc_code (tiles s' ?c) \<noteq> MYSTERY
                    then Some (Inr (s', cw, 0, tc_code (tiles s' ?c)))
                    else case assign_code P \<lparr>at = ?c, spin = 0\<rparr> s' of
                           None \<Rightarrow> None
                         | Some (Inl e) \<Rightarrow> Some (Inl e)
                         | Some (Inr (s4, i)) \<Rightarrow> Some (Inr (s4, cw, 0, i)))" .
    from code [OF a] show "?gc s = (case assign_code P \<lparr>at = ?c, spin = 0\<rparr> ?s1 of
                   None \<Rightarrow> None
                 | Some (Inl e) \<Rightarrow> Some (Inl e)
                 | Some (Inr (s4, i)) \<Rightarrow> Some (Inr (s4, cw, 0, i)))" .
  qed
qed


lemma example_root_tile:
  "dist (tiles example_root (at \<lparr>at = 0, spin = 0\<rparr>)) = 0"
  "parent_dir (tiles example_root (at \<lparr>at = 0, spin = 0\<rparr>)) = MYSTERY"
  "at (unified_to (tiles example_root (at \<lparr>at = 0, spin = 0\<rparr>))) = at \<lparr>at = 0, spin = 0\<rparr>"
  "old_parent_dir (tiles example_root (at \<lparr>at = 0, spin = 0\<rparr>)) = MYSTERY
     \<or> old_parent_dir (tiles example_root (at \<lparr>at = 0, spin = 0\<rparr>)) = -1"
  "\<not> is_solid (tiles example_root (at \<lparr>at = 0, spin = 0\<rparr>))"
  "tcellcount example_root = 3"
  by (simp_all add: example_root_def example_arena_def)

text \<open>
  The theorem at tile 0 of \<open>example_root\<close>, an arena of three tiles: with room for a million
  tiles, and a code assignment that always gives code 0; and with room for three only.
\<close>

theorem get_parent_dir_root_witness:
  "(\<exists>s'. get_parent_dir idle_engine example_parent_engine example_shapes 0 1000000
              \<lparr>at = 0, spin = 0\<rparr> example_root
             = Some (Inr (s', \<lparr>at = 0, spin = 0\<rparr>, \<lparr>at = 0, spin = -1\<rparr>))
          \<and> parent_dir (tiles s' 0) = -1
          \<and> is_solid (tiles s' 0)
          \<and> get_parent_dir idle_engine example_parent_engine example_shapes 0 1000000
              \<lparr>at = 0, spin = 0\<rparr> s'
             = Some (Inr (s', \<lparr>at = 0, spin = 0\<rparr>, \<lparr>at = 0, spin = -1\<rparr>)))
   \<and> (\<exists>s''. get_code idle_engine example_parent_engine example_shapes 0 1000000
               \<lparr>at = 0, spin = 0\<rparr> example_root
             = Some (Inr (s'', \<lparr>at = 0, spin = 0\<rparr>, 0, 0)))
   \<and> get_parent_dir idle_engine example_parent_engine example_shapes 0 3
        \<lparr>at = 0, spin = 0\<rparr> example_root
      = Some (Inl (rulegen_surrender ''max_tcellcount exceeded''))
   \<and> get_code idle_engine example_parent_engine example_shapes 0 3
        \<lparr>at = 0, spin = 0\<rparr> example_root
      = Some (Inl (rulegen_surrender ''max_tcellcount exceeded''))"
proof -
  let ?cw = "\<lparr>at = 0, spin = 0\<rparr> :: twalker"
  note t = get_parent_dir_root [OF example_root_tile(1-4), where E = idle_engine
      and P = example_parent_engine and shs = example_shapes and flags = 0]
  have room: "is_solid (tiles example_root (at ?cw)) \<or> tcellcount example_root < 1000000"
    by (simp add: example_root_tile)
  have full: "\<not> is_solid (tiles example_root (at ?cw)) \<and> 3 \<le> tcellcount example_root"
    using example_root_tile(5) by (simp add: example_root_tile(6))
  have ac: "assign_code example_parent_engine = (\<lambda>w s. Some (Inr (s, 0)))"
    by (simp add: example_parent_engine_def)
  note r = t [where max_tcellcount = 1000000, THEN conjunct2, rule_format, OF room]
  from r [THEN conjunct1] obtain s' where
    a: "get_parent_dir idle_engine example_parent_engine example_shapes 0 1000000 ?cw example_root
          = Some (Inr (s', ?cw, \<lparr>at = at ?cw, spin = -1\<rparr>))"
    and b: "parent_dir (tiles s' (at ?cw)) = -1" "is_solid (tiles s' (at ?cw))"
    and c: "get_parent_dir idle_engine example_parent_engine example_shapes 0 1000000 ?cw s'
          = Some (Inr (s', ?cw, \<lparr>at = at ?cw, spin = -1\<rparr>))"
    by blast
  have A: "\<exists>s'. get_parent_dir idle_engine example_parent_engine example_shapes 0 1000000
              ?cw example_root
             = Some (Inr (s', ?cw, \<lparr>at = 0, spin = -1\<rparr>))
          \<and> parent_dir (tiles s' 0) = -1
          \<and> is_solid (tiles s' 0)
          \<and> get_parent_dir idle_engine example_parent_engine example_shapes 0 1000000 ?cw s'
             = Some (Inr (s', ?cw, \<lparr>at = 0, spin = -1\<rparr>))"
    using a b c by auto
  have B: "\<exists>s''. get_code idle_engine example_parent_engine example_shapes 0 1000000
               ?cw example_root
             = Some (Inr (s'', ?cw, 0, 0))"
    using r [THEN conjunct2] by (simp add: ac)
  note f = t [where max_tcellcount = 3, THEN conjunct1, rule_format, OF full]
  from A B f [THEN conjunct1] f [THEN conjunct2] show ?thesis by (intro conjI)
qed

text \<open>
  On the root of \<open>example_root\<close> the direction returned and cached by \<^verbatim>\<open>get_parent_dir\<close>
  is \<open>-1\<close>, which is not 0.
\<close>

theorem get_parent_dir_root_counterexample:
  "get_parent_dir idle_engine idle_parent_engine example_shapes 0 1000000
       \<lparr>at = 0, spin = 0\<rparr> example_root
     = Some (Inr (example_root\<lparr>tiles := (tiles example_root)(0 :=
                      (tiles example_root 0)\<lparr>is_solid := True, parent_dir := -1\<rparr>),
                    parent_updates := parent_updates example_root + 1\<rparr>,
                  \<lparr>at = 0, spin = 0\<rparr>, \<lparr>at = 0, spin = -1\<rparr>))
   \<and> parent_dir (tiles (example_root\<lparr>tiles := (tiles example_root)(0 :=
                      (tiles example_root 0)\<lparr>is_solid := True, parent_dir := -1\<rparr>),
                    parent_updates := parent_updates example_root + 1\<rparr>) 0) \<noteq> 0"
proof -
  have h1: "dist (tiles example_root 0) = 0" "at (unified_to (tiles example_root 0)) = 0"
    "is_solid (tiles example_root 0) \<or> tcellcount example_root < 1000000"
    "parent_dir (tiles example_root 0) = MYSTERY" "old_parent_dir (tiles example_root 0) = MYSTERY"
    by (simp_all add: example_root_def example_arena_def)
  note bs = be_solid_root [OF h1(1-3), of idle_engine idle_parent_engine 0]
  have st: "store_parent_dir idle_parent_engine 0 \<lparr>at = 0, spin = 0\<rparr> (-1)
              (example_root\<lparr>tiles := (tiles example_root)(0 :=
                      (tiles example_root 0)\<lparr>is_solid := True\<rparr>)\<rparr>)
            = Some (Inr (example_root\<lparr>tiles := (tiles example_root)(0 :=
                      (tiles example_root 0)\<lparr>is_solid := True, parent_dir := -1\<rparr>),
                    parent_updates := parent_updates example_root + 1\<rparr>,
                  \<lparr>at = 0, spin = 0\<rparr>, \<lparr>at = 0, spin = -1\<rparr>))"
    using h1(5)
    by (simp add: store_parent_dir_def Let_def set_parent_dir_def count_parent_update_def)
  have g: "get_parent_dir idle_engine idle_parent_engine example_shapes 0 1000000
       \<lparr>at = 0, spin = 0\<rparr> example_root
     = Some (Inr (example_root\<lparr>tiles := (tiles example_root)(0 :=
                      (tiles example_root 0)\<lparr>is_solid := True, parent_dir := -1\<rparr>),
                    parent_updates := parent_updates example_root + 1\<rparr>,
                  \<lparr>at = 0, spin = 0\<rparr>, \<lparr>at = 0, spin = -1\<rparr>))"
    using h1(1,4) by (subst get_parent_dir.simps) (simp add: bs st)
  then show ?thesis by simp
qed

subsection \<open>The consumer step\<close>











subsection \<open>The choice among the nearer neighbours in \<^verbatim>\<open>get_parent_dir\<close>\<close>

















end
